theory Spec2Isabelle
  imports Complex_Main "HOL-Library.AList" "HOL-Library.Char_ord" "HOL-Library.List_Lexorder"
begin

section \<open>JSON types and the live classifier (jsontype)\<close>

text \<open>
  The enumeration \<^verbatim>\<open>JsonType\<close> of \<^verbatim>\<open>jsontype.pxd\<close>, in declaration order.
  \<^verbatim>\<open>sorted\<close> on a set of these values orders them by that declaration order.
\<close>

datatype JsonType = OBJECT | ARRAY | JNULL | BOOLEAN | INTEGER | NUMBER | STRING | TIMESTAMP

definition all_types :: "JsonType list" where
  "all_types = [OBJECT, ARRAY, JNULL, BOOLEAN, INTEGER, NUMBER, STRING, TIMESTAMP]"

text \<open>\<^verbatim>\<open>sorted(s)\<close> for a set \<open>s\<close> of JSON types: its members in enumeration order.\<close>

definition sorted_types :: "JsonType set \<Rightarrow> JsonType list" where
  "sorted_types T = filter (\<lambda>t. t \<in> T) all_types"

text \<open>
  Python values as the classifier sees them: the exact runtime type is the constructor.
  A float's value is never inspected by the code modelled here and is carried as a
  rational; \<open>DUnicode\<close> is Python 2's \<^verbatim>\<open>unicode\<close>; \<open>DOther\<close> stands for a value
  of any other type (a tuple, a set, a subclass instance, ...). Dictionaries keep their
  items in iteration order, with keys of type \<^verbatim>\<open>str\<close>.
\<close>

datatype doc =
    DNone
  | DDict "(string \<times> doc) list"
  | DList "doc list"
  | DBool bool
  | DInt int
  | DFloat rat
  | DStr string
  | DUnicode string
  | DOther

datatype error = TypeError | ValueError | KeyError | IndexError | AttributeError

text \<open>
  \<^verbatim>\<open>typeof\<close>. \<open>VERSION\<close> is \<^verbatim>\<open>sys.version_info.major\<close>; \<open>strptime_ok s\<close> says
  whether \<^verbatim>\<open>datetime.datetime.strptime(s, "%Y-%m-%dT%H:%M:%SZ")\<close> returns (the
  library function is not part of the repository and is taken as a parameter).
\<close>

fun typeof :: "nat \<Rightarrow> (string \<Rightarrow> bool) \<Rightarrow> doc \<Rightarrow> error + JsonType" where
  "typeof VERSION strptime_ok DNone = Inr JNULL"
| "typeof VERSION strptime_ok (DDict kvs) = Inr OBJECT"
| "typeof VERSION strptime_ok (DList ds) = Inr ARRAY"
| "typeof VERSION strptime_ok (DBool b) = Inr BOOLEAN"
| "typeof VERSION strptime_ok (DInt i) = Inr NUMBER"
| "typeof VERSION strptime_ok (DFloat f) = Inr NUMBER"
| "typeof VERSION strptime_ok (DStr s) = (if strptime_ok s then Inr TIMESTAMP else Inr STRING)"
| "typeof VERSION strptime_ok (DUnicode s) = (if VERSION = 2 then Inr STRING else Inl TypeError)"
| "typeof VERSION strptime_ok DOther = Inl TypeError"

text \<open>\<^verbatim>\<open>str.lower\<close> on the ASCII letters, which is all \<^verbatim>\<open>str2type\<close> depends on.\<close>

definition lower_char :: "char \<Rightarrow> char" where
  "lower_char c =
     (if 65 \<le> (of_char c :: nat) \<and> (of_char c :: nat) \<le> 90
      then char_of ((of_char c :: nat) + 32) else c)"

definition lower :: "string \<Rightarrow> string" where
  "lower s = map lower_char s"

definition str2type :: "string \<Rightarrow> error + JsonType" where
  "str2type json_type =
     (let s = lower json_type in
      if s = ''object'' then Inr OBJECT
      else if s = ''array'' then Inr ARRAY
      else if s = ''null'' then Inr JNULL
      else if s = ''boolean'' then Inr BOOLEAN
      else if s = ''integer'' then Inr INTEGER
      else if s = ''number'' then Inr NUMBER
      else if s = ''timestamp'' then Inr TIMESTAMP
      else if s = ''string'' then Inr STRING
      else Inl ValueError)"

fun type2str :: "JsonType \<Rightarrow> string" where
  "type2str OBJECT = ''object''"
| "type2str ARRAY = ''array''"
| "type2str JNULL = ''null''"
| "type2str BOOLEAN = ''boolean''"
| "type2str INTEGER = ''integer''"
| "type2str NUMBER = ''number''"
| "type2str TIMESTAMP = ''timestamp''"
| "type2str STRING = ''string''"

section \<open>The sparse LIL primitive (lil)\<close>

text \<open>
  \<^verbatim>\<open>bisect_left\<close>: the early return when \<open>x\<close> exceeds the last element, then the
  binary search loop. Indices are naturals (\<open>0 \<le> lo \<le> mid < hi \<le> len(a)\<close> throughout,
  so every read is in range); the elements are compared only, never added, and are
  modelled as unbounded integers.
\<close>

function bisect_loop :: "int list \<Rightarrow> int \<Rightarrow> nat \<Rightarrow> nat \<Rightarrow> nat" where
  "bisect_loop a x lo hi =
     (if lo < hi then
        (let mid = lo + (hi - lo) div 2; v = a ! mid in
         if v < x then bisect_loop a x (mid + 1) hi else bisect_loop a x lo mid)
      else lo)"
  by pat_completeness auto
termination
  by (relation "measure (\<lambda>(a, x, lo, hi). hi - lo)") auto

declare bisect_loop.simps [simp del]

definition bisect_left :: "int list \<Rightarrow> int \<Rightarrow> nat" where
  "bisect_left a x =
     (let hi = length a in
      if hi > 0 \<and> x > a ! (hi - 1) then hi else bisect_loop a x 0 hi)"

text \<open>\<^verbatim>\<open>list.insert(pos, v)\<close> for \<open>pos \<ge> 0\<close>.\<close>

definition list_insert :: "nat \<Rightarrow> 'a \<Rightarrow> 'a list \<Rightarrow> 'a list" where
  "list_insert pos v xs = take pos xs @ v # drop pos xs"

text \<open>
  The body of \<^verbatim>\<open>lil_insert\<close> on one row and its parallel data list; the assignment
  \<^verbatim>\<open>data[pos] = True\<close> raises when the data list is too short.
\<close>

definition lil_insert_row :: "int list \<times> bool list \<Rightarrow> int \<Rightarrow> error + (int list \<times> bool list)" where
  "lil_insert_row rd j =
     (let row = fst rd; data = snd rd; pos = bisect_left row j in
      if pos = length row then Inr (row @ [j], data @ [True])
      else if row ! pos \<noteq> j then Inr (list_insert pos j row, list_insert pos True data)
      else if pos < length data then Inr (row, data[pos := True])
      else Inl IndexError)"

text \<open>A binary LIL matrix: the row lists and the data lists, indexed by row number.\<close>

type_synonym lil = "int list list \<times> bool list list"

definition lil_insert :: "lil \<Rightarrow> nat \<Rightarrow> int \<Rightarrow> error + lil" where
  "lil_insert X i j =
     (let rows = fst X; datas = snd X in
      if i < length rows \<and> i < length datas then
        (case lil_insert_row (rows ! i, datas ! i) j of
           Inl e \<Rightarrow> Inl e
         | Inr rd \<Rightarrow> Inr (rows[i := fst rd], datas[i := snd rd]))
      else Inl IndexError)"

fun lil_set_col :: "lil \<Rightarrow> nat list \<Rightarrow> int \<Rightarrow> error + lil" where
  "lil_set_col X [] col = Inr X"
| "lil_set_col X (r # rs) col =
     (case lil_insert X r col of Inl e \<Rightarrow> Inl e | Inr X' \<Rightarrow> lil_set_col X' rs col)"

text \<open>
  \<^verbatim>\<open>lil_set\<close> runs over \<^verbatim>\<open>rs.shape[0]\<close> and reads \<^verbatim>\<open>cols[i]\<close>: a column array
  shorter than the row array is an out-of-range read.
\<close>

fun lil_set :: "lil \<Rightarrow> nat list \<Rightarrow> int list \<Rightarrow> error + lil" where
  "lil_set X [] cols = Inr X"
| "lil_set X (r # rs) [] = Inl IndexError"
| "lil_set X (r # rs) (c # cols) =
     (case lil_insert X r c of Inl e \<Rightarrow> Inl e | Inr X' \<Rightarrow> lil_set X' rs cols)"

section \<open>The schema tree (schema, jsonvectorizer)\<close>

text \<open>
  A path is a tuple whose elements are strings, or the integer index that
  \<^verbatim>\<open>add_item\<close> appends in tuple mode.
\<close>

datatype seg = SStr string | SInt nat

text \<open>
  A fitted extractor is an object of a class outside the repository's core: the model
  keeps what the core reads from it, its feature names and the nonzero (row, column)
  pairs of the matrix its \<^verbatim>\<open>transform\<close> returns for a list of documents.
\<close>

datatype fitted = Fitted (vfeature_names: "string list") (vtransform: "doc list \<Rightarrow> (nat \<times> nat) list")

text \<open>
  The fields of a \<^verbatim>\<open>JsonVectorizer\<close> object other than its children. \<open>pos\<close> and
  \<open>n_features\<close> are C integers of the extension type (initially 0, never \<^verbatim>\<open>None\<close>);
  \<open>required\<close> is \<^verbatim>\<open>None\<close> until the first object is seen. The sample buffer
  \<^verbatim>\<open>values\<close> is named \<open>node_values\<close>.
\<close>

record node_data =
  path :: "seg list"
  tuple_items :: bool
  type :: "JsonType set"
  required :: "string set option"
  counts :: "JsonType \<rightharpoonup> int"
  node_values :: "JsonType \<rightharpoonup> doc list"
  vectorizers :: "JsonType \<rightharpoonup> fitted"
  pos :: int
  feature_names :: "string list"
  n_features :: int

text \<open>
  A node owns its children: the dictionary \<^verbatim>\<open>properties\<close>, as an association list
  in insertion order, and the list \<^verbatim>\<open>items\<close>.
\<close>

datatype node = Node (data: node_data) (properties: "(string \<times> node) list") (items: "node list")

text \<open>
  The schema dictionary: each key is optional. \<^verbatim>\<open>type\<close> is one string or a list,
  \<^verbatim>\<open>items\<close> one schema or a list; \<^verbatim>\<open>required\<close> is read through \<^verbatim>\<open>set(...)\<close>
  only and is kept as that set. Dictionaries keyed by type names are association lists.
\<close>

record rep_data =
  r_tuple_items :: "bool option"
  r_type :: "(string + string list) option"
  r_required :: "string set option"
  r_counts :: "(string \<times> int) list option"
  r_values :: "(string \<times> doc list) list option"
  r_pos :: "int option"
  r_vectorizers :: "(string \<times> fitted) list option"
  r_feature_names :: "string list option"
  r_n_features :: "int option"

datatype rep = Rep (rdata: rep_data) (r_properties: "(string \<times> rep) list option")
  (r_items: "(rep + rep list) option")

text \<open>A new object built from the empty schema \<^verbatim>\<open>{}\<close>.\<close>

definition new_node :: "seg list \<Rightarrow> bool \<Rightarrow> node" where
  "new_node p ti =
     Node \<lparr>path = p, tuple_items = ti, type = {}, required = None, counts = Map.empty,
            node_values = Map.empty, vectorizers = Map.empty, pos = 0, feature_names = [],
            n_features = 0\<rparr> [] []"

text \<open>\<^verbatim>\<open>for name in sorted(self.properties)\<close>, with the child of each name.\<close>

definition sorted_properties :: "node \<Rightarrow> (string \<times> node) list" where
  "sorted_properties n = sort_key fst (properties n)"

text \<open>\<^verbatim>\<open>add_property(name, {})\<close> and \<^verbatim>\<open>add_item({})\<close>.\<close>

definition add_property :: "node \<Rightarrow> string \<Rightarrow> node" where
  "add_property n name =
     Node (data n)
       (AList.update name (new_node (path (data n) @ [SStr name]) (tuple_items (data n)))
          (properties n))
       (items n)"

definition add_item :: "node \<Rightarrow> node" where
  "add_item n =
     Node (data n) (properties n)
       (items n @
          [new_node
             (path (data n) @
                (if tuple_items (data n) then [SInt (length (items n))] else [SStr ''any'']))
             (tuple_items (data n))])"

fun doc_keys :: "doc \<Rightarrow> string list" where
  "doc_keys (DDict kvs) = map fst kvs"
| "doc_keys d = []"

fun doc_len :: "doc \<Rightarrow> nat" where
  "doc_len (DList ds) = length ds"
| "doc_len (DDict kvs) = length kvs"
| "doc_len d = 0"

text \<open>\<^verbatim>\<open>while len(self.items) < len(doc): self.add_item({})\<close>.\<close>

function grow_items :: "node \<Rightarrow> nat \<Rightarrow> node" where
  "grow_items n len = (if length (items n) < len then grow_items (add_item n) len else n)"
  by pat_completeness auto
termination
  by (relation "measure (\<lambda>(n, len). len - length (items n))") (auto simp: add_item_def)

declare grow_items.simps [simp del]

text \<open>\<^verbatim>\<open>Schema._extend_self\<close>.\<close>

definition Schema_extend_self :: "node \<Rightarrow> doc \<Rightarrow> JsonType \<Rightarrow> node" where
  "Schema_extend_self n doc json_type =
     (let n1 = Node ((data n)\<lparr>type := insert json_type (type (data n))\<rparr>) (properties n) (items n) in
      if json_type = OBJECT then
        (let n2 = fold (\<lambda>key m. if key \<notin> fst ` set (properties m) then add_property m key else m)
                    (doc_keys doc) n1 in
         Node ((data n2)\<lparr>required :=
                  (case required (data n2) of
                     None \<Rightarrow> Some (set (doc_keys doc))
                   | Some r \<Rightarrow> Some (r \<inter> set (doc_keys doc)))\<rparr>)
           (properties n2) (items n2))
      else if json_type = ARRAY then
        (if tuple_items (data n1) then grow_items n1 (doc_len doc)
         else if items n1 = [] then add_item n1
         else n1)
      else n1)"

text \<open>\<^verbatim>\<open>JsonVectorizer._extend_self\<close>: the schema step, the count, the sample.\<close>

definition extend_self :: "node \<Rightarrow> doc \<Rightarrow> JsonType \<Rightarrow> node" where
  "extend_self n doc json_type =
     (let n1 = Schema_extend_self n doc json_type;
          c = (case counts (data n1) json_type of None \<Rightarrow> 0 | Some k \<Rightarrow> k);
          n2 = Node ((data n1)\<lparr>counts := (counts (data n1))(json_type \<mapsto> c + 1)\<rparr>)
                 (properties n1) (items n1) in
      if json_type \<noteq> OBJECT \<and> json_type \<noteq> ARRAY \<and> json_type \<noteq> JNULL then
        Node ((data n2)\<lparr>node_values :=
                 (node_values (data n2))(json_type \<mapsto>
                    (case node_values (data n2) json_type of
                       None \<Rightarrow> [doc]
                     | Some vs \<Rightarrow> vs @ [doc]))\<rparr>)
          (properties n2) (items n2)
      else n2)"

text \<open>
  \<^verbatim>\<open>_extend\<close>: classify (which may raise), extend this node, then walk the document's
  items or elements, each into the child \<^verbatim>\<open>get_property(key)\<close> or \<^verbatim>\<open>get_item(i)\<close>
  (\<^verbatim>\<open>get_item(0)\<close> in shared mode). A missing child is the \<^verbatim>\<open>KeyError\<close> or
  \<^verbatim>\<open>IndexError\<close> of the lookup. \<open>extend_elems\<close> carries the index of the next
  element.
\<close>

fun extend_doc :: "nat \<Rightarrow> (string \<Rightarrow> bool) \<Rightarrow> node \<Rightarrow> doc \<Rightarrow> error + node"
  and extend_props :: "nat \<Rightarrow> (string \<Rightarrow> bool) \<Rightarrow> node \<Rightarrow> (string \<times> doc) list \<Rightarrow> error + node"
  and extend_elems :: "nat \<Rightarrow> (string \<Rightarrow> bool) \<Rightarrow> node \<Rightarrow> nat \<Rightarrow> doc list \<Rightarrow> error + node"
where
  "extend_doc V ts n d =
     (case typeof V ts d of
        Inl e \<Rightarrow> Inl e
      | Inr json_type \<Rightarrow>
          (let n1 = extend_self n d json_type in
           if json_type = OBJECT then
             (case d of DDict kvs \<Rightarrow> extend_props V ts n1 kvs | _ \<Rightarrow> Inr n1)
           else if json_type = ARRAY then
             (case d of DList ds \<Rightarrow> extend_elems V ts n1 0 ds | _ \<Rightarrow> Inr n1)
           else Inr n1))"
| "extend_props V ts n [] = Inr n"
| "extend_props V ts n ((key, v) # kvs) =
     (case map_of (properties n) key of
        None \<Rightarrow> Inl KeyError
      | Some c \<Rightarrow>
          (case extend_doc V ts c v of
             Inl e \<Rightarrow> Inl e
           | Inr c' \<Rightarrow>
               extend_props V ts (Node (data n) (AList.update key c' (properties n)) (items n)) kvs))"
| "extend_elems V ts n i [] = Inr n"
| "extend_elems V ts n i (item # ds) =
     (let k = (if tuple_items (data n) then i else 0) in
      if k < length (items n) then
        (case extend_doc V ts (items n ! k) item of
           Inl e \<Rightarrow> Inl e
         | Inr c' \<Rightarrow>
             extend_elems V ts (Node (data n) (properties n) ((items n)[k := c'])) (Suc i) ds)
      else Inl IndexError)"

text \<open>\<^verbatim>\<open>extend(docs)\<close>: each document in turn; the first exception ends the call.\<close>

fun extend :: "nat \<Rightarrow> (string \<Rightarrow> bool) \<Rightarrow> node \<Rightarrow> doc list \<Rightarrow> error + node" where
  "extend V ts n [] = Inr n"
| "extend V ts n (d # docs) =
     (case extend_doc V ts n d of Inl e \<Rightarrow> Inl e | Inr n' \<Rightarrow> extend V ts n' docs)"

section \<open>Persistence: \<^verbatim>\<open>to_dict\<close> and \<^verbatim>\<open>from_dict\<close>\<close>

text \<open>The items of a dictionary keyed by JSON type, listed in enumeration order.\<close>

definition map_items :: "(JsonType \<rightharpoonup> 'a) \<Rightarrow> (JsonType \<times> 'a) list" where
  "map_items m = concat (map (\<lambda>t. case m t of None \<Rightarrow> [] | Some v \<Rightarrow> [(t, v)]) all_types)"

definition type_keyed :: "(JsonType \<rightharpoonup> 'a) \<Rightarrow> (string \<times> 'a) list option" where
  "type_keyed m =
     (if map_items m = [] then None else Some (map (\<lambda>kv. (type2str (fst kv), snd kv)) (map_items m)))"

fun to_dict :: "node \<Rightarrow> rep"
  and to_dict_props :: "(string \<times> node) list \<Rightarrow> (string \<times> rep) list"
  and to_dict_items :: "node list \<Rightarrow> rep list"
where
  "to_dict (Node d ps its) =
     Rep \<lparr>r_tuple_items = Some (tuple_items d),
          r_type = (if type d \<noteq> {} then Some (Inr (map type2str (sorted_types (type d)))) else None),
          r_required = required d,
          r_counts = type_keyed (counts d),
          r_values = type_keyed (node_values d),
          r_pos = Some (pos d),
          r_vectorizers = type_keyed (vectorizers d),
          r_feature_names = (if feature_names d \<noteq> [] then Some (feature_names d) else None),
          r_n_features = Some (n_features d)\<rparr>
       (if ps \<noteq> [] then Some (to_dict_props ps) else None)
       (if its \<noteq> [] then Some (Inr (to_dict_items its)) else None)"
| "to_dict_props [] = []"
| "to_dict_props ((name, c) # ps) = (name, to_dict c) # to_dict_props ps"
| "to_dict_items [] = []"
| "to_dict_items (c # cs) = to_dict c # to_dict_items cs"

text \<open>\<^verbatim>\<open>for json_type in schema['type']: self.type.add(str2type(json_type))\<close>.\<close>

fun add_types :: "string list \<Rightarrow> JsonType set \<Rightarrow> error + JsonType set" where
  "add_types [] T = Inr T"
| "add_types (s # ss) T =
     (case str2type s of Inl e \<Rightarrow> Inl e | Inr t \<Rightarrow> add_types ss (insert t T))"

text \<open>\<^verbatim>\<open>{str2type(k): v for k, v in d.items()}\<close>.\<close>

fun by_type :: "(string \<times> 'a) list \<Rightarrow> (JsonType \<rightharpoonup> 'a) \<Rightarrow> error + (JsonType \<rightharpoonup> 'a)" where
  "by_type [] m = Inr m"
| "by_type ((k, v) # kvs) m =
     (case str2type k of Inl e \<Rightarrow> Inl e | Inr t \<Rightarrow> by_type kvs (m(t \<mapsto> v)))"

text \<open>
  The part of \<^verbatim>\<open>JsonVectorizer.from_dict\<close> that follows \<^verbatim>\<open>Schema.from_dict\<close>: the
  keys present overwrite the fields of the new object.
\<close>

definition from_dict_fields :: "rep_data \<Rightarrow> node_data \<Rightarrow> error + node_data" where
  "from_dict_fields r d =
     (case (case r_counts r of None \<Rightarrow> Inr (counts d) | Some kvs \<Rightarrow> by_type kvs Map.empty) of
        Inl e \<Rightarrow> Inl e
      | Inr cn \<Rightarrow>
     (case (case r_values r of None \<Rightarrow> Inr (node_values d) | Some kvs \<Rightarrow> by_type kvs Map.empty) of
        Inl e \<Rightarrow> Inl e
      | Inr vl \<Rightarrow>
     (case (case r_vectorizers r of None \<Rightarrow> Inr (vectorizers d) | Some kvs \<Rightarrow> by_type kvs Map.empty) of
        Inl e \<Rightarrow> Inl e
      | Inr vz \<Rightarrow>
          Inr (d\<lparr>counts := cn, node_values := vl, vectorizers := vz,
                 pos := (case r_pos r of None \<Rightarrow> pos d | Some k \<Rightarrow> k),
                 feature_names := (case r_feature_names r of None \<Rightarrow> feature_names d | Some f \<Rightarrow> f),
                 n_features := (case r_n_features r of None \<Rightarrow> n_features d | Some k \<Rightarrow> k)\<rparr>))))"

text \<open>
  \<open>from_dict p ti r\<close> is the object \<^verbatim>\<open>JsonVectorizer(schema=r, path=p, tuple_items=ti)\<close>:
  \<^verbatim>\<open>__init__\<close> fills \<^verbatim>\<open>tuple_items\<close> in when the key is absent and calls
  \<^verbatim>\<open>from_dict\<close>, whose \<^verbatim>\<open>add_property\<close> and \<^verbatim>\<open>add_item\<close> build each child the same
  way, under the path extended by the property name, the index or \<^verbatim>\<open>'any'\<close>.
\<close>

fun from_dict :: "seg list \<Rightarrow> bool \<Rightarrow> rep \<Rightarrow> error + node"
  and from_dict_props ::
    "seg list \<Rightarrow> bool \<Rightarrow> (string \<times> rep) list \<Rightarrow> (string \<times> node) list \<Rightarrow> error + (string \<times> node) list"
  and from_dict_items :: "seg list \<Rightarrow> bool \<Rightarrow> rep list \<Rightarrow> node list \<Rightarrow> error + node list"
where
  "from_dict p ti (Rep r ps its) =
     (let ti' = (case r_tuple_items r of None \<Rightarrow> ti | Some b \<Rightarrow> b) in
      case (case r_type r of
              None \<Rightarrow> Inr {}
            | Some (Inl s) \<Rightarrow> add_types [s] {}
            | Some (Inr ss) \<Rightarrow> add_types ss {}) of
        Inl e \<Rightarrow> Inl e
      | Inr T \<Rightarrow>
      (case (case ps of None \<Rightarrow> Inr [] | Some kvs \<Rightarrow> from_dict_props p ti' kvs []) of
        Inl e \<Rightarrow> Inl e
      | Inr props \<Rightarrow>
      (case (case its of
               None \<Rightarrow> Inr []
             | Some (Inl it) \<Rightarrow> from_dict_items p ti' [it] []
             | Some (Inr l) \<Rightarrow> from_dict_items p ti' l []) of
        Inl e \<Rightarrow> Inl e
      | Inr itms \<Rightarrow>
      (case from_dict_fields r
              ((data (new_node p ti'))\<lparr>type := T, required := r_required r\<rparr>) of
        Inl e \<Rightarrow> Inl e
      | Inr d \<Rightarrow> Inr (Node d props itms)))))"
| "from_dict_props p ti [] acc = Inr acc"
| "from_dict_props p ti ((name, r) # kvs) acc =
     (case from_dict (p @ [SStr name]) ti r of
        Inl e \<Rightarrow> Inl e
      | Inr c \<Rightarrow> from_dict_props p ti kvs (AList.update name c acc))"
| "from_dict_items p ti [] acc = Inr acc"
| "from_dict_items p ti (r # rs) acc =
     (case from_dict (p @ (if ti then [SInt (length acc)] else [SStr ''any''])) ti r of
        Inl e \<Rightarrow> Inl e
      | Inr c \<Rightarrow> from_dict_items p ti rs (acc @ [c]))"

section \<open>Pruning\<close>

text \<open>
  \<^verbatim>\<open>hasmatch\<close>. \<open>search pattern s\<close> says whether \<^verbatim>\<open>re.search(pattern, s)\<close> finds a
  match (the regular expression engine is a parameter).
\<close>

fun hasmatch :: "(string \<Rightarrow> string \<Rightarrow> bool) \<Rightarrow> string \<Rightarrow> string list \<Rightarrow> bool" where
  "hasmatch search s [] = False"
| "hasmatch search s (pattern # patterns) =
     (if search pattern s then True else hasmatch search s patterns)"

text \<open>
  \<^verbatim>\<open>':'.join(self.path)\<close> raises \<^verbatim>\<open>TypeError\<close> on an element that is not a string.
\<close>

fun join_strs :: "string list \<Rightarrow> string" where
  "join_strs [] = []"
| "join_strs [s] = s"
| "join_strs (s # t # r) = s @ '':'' @ join_strs (t # r)"

fun seg_is_str :: "seg \<Rightarrow> bool" where
  "seg_is_str (SStr s) = True"
| "seg_is_str (SInt k) = False"

fun seg_str :: "seg \<Rightarrow> string" where
  "seg_str (SStr s) = s"
| "seg_str (SInt k) = []"

definition join_path :: "seg list \<Rightarrow> error + string" where
  "join_path p = (if list_all seg_is_str p then Inr (join_strs (map seg_str p)) else Inl TypeError)"

text \<open>
  The loop of \<^verbatim>\<open>_prune_self\<close> over \<^verbatim>\<open>sorted(self.type)\<close>, a list made before the
  loop. \<^verbatim>\<open>self.counts[json_type]\<close> raises on a missing key and
  \<^verbatim>\<open>self.required.clear()\<close> on \<^verbatim>\<open>None\<close>.
\<close>

fun prune_types :: "string \<Rightarrow> int \<Rightarrow> JsonType list \<Rightarrow> string list \<times> node \<Rightarrow> error + (string list \<times> node)" where
  "prune_types pth m [] st = Inr st"
| "prune_types pth m (t # ts) (paths, n) =
     (case counts (data n) t of
        None \<Rightarrow> Inl KeyError
      | Some c \<Rightarrow>
          if c < m then
            (let paths' = paths @ [pth @ '' -> '' @ type2str t];
                 d1 = (data n)\<lparr>type := type (data n) - {t},
                               counts := (counts (data n))(t := None),
                               node_values := (node_values (data n))(t := None)\<rparr> in
             if t = OBJECT then
               (case required d1 of
                  None \<Rightarrow> Inl AttributeError
                | Some r \<Rightarrow> prune_types pth m ts (paths', Node (d1\<lparr>required := Some {}\<rparr>) [] (items n)))
             else if t = ARRAY then prune_types pth m ts (paths', Node d1 (properties n) [])
             else prune_types pth m ts (paths', Node d1 (properties n) (items n)))
          else prune_types pth m ts (paths, n))"

text \<open>\<^verbatim>\<open>_prune_self\<close>: the dropped type edges, or the node's path alone once no type is left.\<close>

definition prune_self :: "int \<Rightarrow> node \<Rightarrow> error + (string list \<times> node)" where
  "prune_self m n =
     (case join_path (path (data n)) of
        Inl e \<Rightarrow> Inl e
      | Inr pth \<Rightarrow>
          (case prune_types pth m (sorted_types (type (data n))) ([], n) of
             Inl e \<Rightarrow> Inl e
           | Inr (paths, n') \<Rightarrow> if type (data n') \<noteq> {} then Inr (paths, n') else Inr ([pth], n')))"

text \<open>The argument \<^verbatim>\<open>min_f\<close> of \<^verbatim>\<open>prune\<close>: an integer or a float.\<close>

datatype min_f = MInt int | MFloat rat

text \<open>\<^verbatim>\<open>sum(self.counts.values())\<close>.\<close>

definition sum_counts :: "node \<Rightarrow> int" where
  "sum_counts n = sum_list (map snd (map_items (counts (data n))))"

lemma prune_types_children:
  "prune_types pth m ts (paths, n) = Inr (paths', n') \<Longrightarrow>
   (properties n' = properties n \<or> properties n' = []) \<and> (items n' = items n \<or> items n' = [])"
proof (induction ts arbitrary: paths n)
  case Nil
  then show ?case by simp
next
  case (Cons t ts)
  then show ?case
    by (auto simp: Let_def split: option.splits if_splits)
qed

lemma prune_self_children:
  "prune_self m n = Inr (paths', n') \<Longrightarrow>
   (properties n' = properties n \<or> properties n' = []) \<and> (items n' = items n \<or> items n' = [])"
  unfolding prune_self_def
  by (auto split: sum.splits if_splits dest: prune_types_children)

subsection \<open>Facts for the termination proofs\<close>

lemma size_insort_key: "size_list f (insort_key k x xs) = Suc (f x + size_list f xs)"
  by (induction xs) auto

lemma size_sort_key [simp]: "size_list f (sort_key k xs) = size_list f xs"
  by (induction xs) (auto simp: sort_key_def size_insort_key)

lemma size_list_rev_eq [simp]: "size_list f (rev xs) = size_list f xs"
  by (induction xs) (auto simp: size_list_append)

lemma prune_self_size:
  assumes "prune_self m n = Inr (paths', n')"
  shows "size_list (size_prod (\<lambda>_. 0) size) (properties n') < size n"
    and "size_list size (items n') < size n"
  using prune_self_children[OF assms] by (cases n; auto)+

text \<open>
  \<^verbatim>\<open>prune\<close> and \<^verbatim>\<open>_prune\<close> (\<open>prune_rec\<close>). \<open>fscale f total\<close> is Python's
  \<^verbatim>\<open>int(f * total)\<close> on a float \<open>f\<close>. \<^verbatim>\<open>_prune\<close> calls the public \<^verbatim>\<open>prune\<close> of each
  child with its own integer \<^verbatim>\<open>min_f\<close>. The properties are visited in sorted order, each
  dropped (with its name taken out of \<^verbatim>\<open>required\<close>, which raises on \<^verbatim>\<open>None\<close>) or
  kept as pruned; \<open>prune_items\<close> receives the items in the order of
  \<^verbatim>\<open>reversed(range(len(self.items)))\<close> and returns the paths and the items kept, in that
  order.
\<close>

function prune :: "(rat \<Rightarrow> int \<Rightarrow> int) \<Rightarrow> (string \<Rightarrow> string \<Rightarrow> bool) \<Rightarrow> string list \<Rightarrow> min_f \<Rightarrow> node \<Rightarrow> error + (string list \<times> node)"
  and prune_rec :: "(rat \<Rightarrow> int \<Rightarrow> int) \<Rightarrow> (string \<Rightarrow> string \<Rightarrow> bool) \<Rightarrow> string list \<Rightarrow> int \<Rightarrow> node \<Rightarrow> error + (string list \<times> node)"
  and prune_props :: "(rat \<Rightarrow> int \<Rightarrow> int) \<Rightarrow> (string \<Rightarrow> string \<Rightarrow> bool) \<Rightarrow> string list \<Rightarrow> int \<Rightarrow> node \<Rightarrow> (string \<times> node) list \<Rightarrow> error + (string list \<times> node)"
  and prune_items :: "(rat \<Rightarrow> int \<Rightarrow> int) \<Rightarrow> (string \<Rightarrow> string \<Rightarrow> bool) \<Rightarrow> string list \<Rightarrow> int \<Rightarrow> node list \<Rightarrow> error + (string list \<times> node list)"
where
  "prune fscale search patterns mf n =
     prune_rec fscale search patterns
       (case mf of MFloat f \<Rightarrow> fscale f (sum_counts n) | MInt k \<Rightarrow> k) n"
| "prune_rec fscale search patterns m n =
     (case prune_self m n of
        Inl e \<Rightarrow> Inl e
      | Inr (paths, n1) \<Rightarrow>
          (case prune_props fscale search patterns m n1 (sorted_properties n1) of
             Inl e \<Rightarrow> Inl e
           | Inr (ppaths, n2) \<Rightarrow>
               (case prune_items fscale search patterns m (rev (items n1)) of
                  Inl e \<Rightarrow> Inl e
                | Inr (ipaths, kept) \<Rightarrow>
                    Inr (paths @ ppaths @ ipaths, Node (data n2) (properties n2) (rev kept)))))"
| "prune_props fscale search patterns m n [] = Inr ([], n)"
| "prune_props fscale search patterns m n ((name, c) # kcs) =
     (case join_path (path (data c)) of
        Inl e \<Rightarrow> Inl e
      | Inr pth \<Rightarrow>
          (case (if hasmatch search pth patterns then Inr ([pth], c, True)
                 else (case prune fscale search patterns (MInt m) c of
                         Inl e \<Rightarrow> Inl e
                       | Inr (ps, c') \<Rightarrow> Inr (ps, c', type (data c') = {}))) of
             Inl e \<Rightarrow> Inl e
           | Inr (ps, c', dropped) \<Rightarrow>
               (case (if dropped then
                        (case required (data n) of
                           None \<Rightarrow> Inl TypeError
                         | Some r \<Rightarrow>
                             Inr (Node ((data n)\<lparr>required := Some (r - {name})\<rparr>)
                                    (AList.delete name (properties n)) (items n)))
                      else Inr (Node (data n) (AList.update name c' (properties n)) (items n))) of
                  Inl e \<Rightarrow> Inl e
                | Inr n' \<Rightarrow>
                    (case prune_props fscale search patterns m n' kcs of
                       Inl e \<Rightarrow> Inl e
                     | Inr (rest, n'') \<Rightarrow> Inr (ps @ rest, n'')))))"
| "prune_items fscale search patterns m [] = Inr ([], [])"
| "prune_items fscale search patterns m (c # cs) =
     (case join_path (path (data c)) of
        Inl e \<Rightarrow> Inl e
      | Inr pth \<Rightarrow>
          (case (if hasmatch search pth patterns then Inr ([pth], c, True)
                 else (case prune fscale search patterns (MInt m) c of
                         Inl e \<Rightarrow> Inl e
                       | Inr (ps, c') \<Rightarrow> Inr (ps, c', type (data c') = {}))) of
             Inl e \<Rightarrow> Inl e
           | Inr (ps, c', dropped) \<Rightarrow>
               (case prune_items fscale search patterns m cs of
                  Inl e \<Rightarrow> Inl e
                | Inr (rest, kept) \<Rightarrow> Inr (ps @ rest, if dropped then kept else c' # kept))))"
  by pat_completeness auto
termination
  apply (relation "measure (\<lambda>x. case x of
      Inl (Inl (fs, S, pats, mf, n)) \<Rightarrow> 2 * size n + 1
    | Inl (Inr (fs, S, pats, m, n)) \<Rightarrow> 2 * size n
    | Inr (Inl (fs, S, pats, m, n, kcs)) \<Rightarrow> 2 * size_list (size_prod (\<lambda>_. 0) size) kcs
    | Inr (Inr (fs, S, pats, m, cs)) \<Rightarrow> 2 * size_list size cs)")
  apply (auto simp: sorted_properties_def dest: prune_self_size)
  done


section \<open>Fitting\<close>

text \<open>\<^verbatim>\<open>str\<close> of a non-negative integer, and \<^verbatim>\<open>':'.join(map(str, self.path))\<close>.\<close>

function str_nat :: "nat \<Rightarrow> string" where
  "str_nat k = (if k < 10 then [char_of (48 + k)] else str_nat (k div 10) @ [char_of (48 + k mod 10)])"
  by pat_completeness auto
termination
  by (relation "measure id") auto

declare str_nat.simps [simp del]

fun str_seg :: "seg \<Rightarrow> string" where
  "str_seg (SStr s) = s"
| "str_seg (SInt k) = str_nat k"

definition join_path_str :: "seg list \<Rightarrow> string" where
  "join_path_str p = join_strs (map str_seg p)"

text \<open>
  An entry of \<^verbatim>\<open>vectorizers\<close>: the optional \<^verbatim>\<open>type\<close> (a string or a list) and
  \<^verbatim>\<open>pattern\<close>, and \<open>rule_fit values n_total path\<close> for
  \<^verbatim>\<open>Vectorizer(*args, **kwargs).fit(values, n_total=n_total, path=path)\<close>, which returns a
  fitted extractor or \<^verbatim>\<open>None\<close>.
\<close>

datatype rule = Rule (rule_type: "(string + string list) option") (rule_pattern: "string option")
  (rule_fit: "doc list \<Rightarrow> int \<Rightarrow> seg list \<Rightarrow> fitted option")

fun get_vectorizer :: "(string \<Rightarrow> string \<Rightarrow> bool) \<Rightarrow> rule list \<Rightarrow> JsonType \<Rightarrow> string \<Rightarrow> rule option" where
  "get_vectorizer search [] json_type pth = None"
| "get_vectorizer search (d # ds) json_type pth =
     (if (case rule_type d of
            None \<Rightarrow> False
          | Some (Inl s) \<Rightarrow> type2str json_type \<noteq> s
          | Some (Inr ss) \<Rightarrow> type2str json_type \<notin> set ss)
      then get_vectorizer search ds json_type pth
      else if (case rule_pattern d of None \<Rightarrow> False | Some pat \<Rightarrow> \<not> search pat pth)
      then get_vectorizer search ds json_type pth
      else Some d)"

text \<open>
  The names appended for an object: one per property not in \<^verbatim>\<open>required\<close>, in sorted
  order; \<^verbatim>\<open>name not in self.required\<close> raises on \<^verbatim>\<open>None\<close>.
\<close>

definition optional_names :: "string \<Rightarrow> string list \<Rightarrow> string set option \<Rightarrow> error + string list" where
  "optional_names pth names req =
     (if names = [] then Inr []
      else (case req of
              None \<Rightarrow> Inl TypeError
            | Some r \<Rightarrow>
                Inr (map (\<lambda>name. pth @ '' has property '' @ [CHR 0x22] @ name @ [CHR 0x22])
                       (filter (\<lambda>name. name \<notin> r) names))))"

text \<open>The loop of \<^verbatim>\<open>_fit_self\<close> over \<^verbatim>\<open>sorted(self.type)\<close>; \<open>multi\<close> is \<^verbatim>\<open>len(self.type) > 1\<close>.\<close>

fun fit_types ::
  "(string \<Rightarrow> string \<Rightarrow> bool) \<Rightarrow> string \<Rightarrow> int \<Rightarrow> string list \<Rightarrow> string list \<Rightarrow> bool \<Rightarrow>
   (JsonType \<rightharpoonup> rule) \<Rightarrow> JsonType list \<Rightarrow> node_data \<Rightarrow> error + node_data" where
  "fit_types search pth n_total ignore_patterns names multi vz [] d = Inr d"
| "fit_types search pth n_total ignore_patterns names multi vz (t # ts) d =
     (let fn1 = (if multi then feature_names d @ [pth @ '' is '' @ type2str t] else feature_names d) in
      case (if t = OBJECT then optional_names pth names (required d) else Inr []) of
        Inl e \<Rightarrow> Inl e
      | Inr opt \<Rightarrow>
          (let d1 = d\<lparr>feature_names := fn1 @ opt\<rparr>;
               d2 = (if \<not> hasmatch search pth ignore_patterns then
                       (case vz t of
                          None \<Rightarrow> d1
                        | Some r \<Rightarrow>
                            (case node_values d1 t of
                               None \<Rightarrow> d1
                             | Some vs \<Rightarrow>
                                 (case rule_fit r vs n_total (path d1) of
                                    None \<Rightarrow> d1
                                  | Some v \<Rightarrow>
                                      d1\<lparr>vectorizers := (vectorizers d1)(t \<mapsto> v),
                                         feature_names := feature_names d1 @
                                           map (\<lambda>f. pth @ '' '' @ f) (vfeature_names v)\<rparr>)))
                     else d1);
               d3 = d2\<lparr>node_values := (node_values d2)(t := None)\<rparr>
           in fit_types search pth n_total ignore_patterns names multi vz ts d3))"

text \<open>\<^verbatim>\<open>_fit_self\<close>: returns the node and \<^verbatim>\<open>pos + len(self.feature_names)\<close>.\<close>

definition fit_self ::
  "(string \<Rightarrow> string \<Rightarrow> bool) \<Rightarrow> int \<Rightarrow> int \<Rightarrow> rule list \<Rightarrow> string list \<Rightarrow> node \<Rightarrow> error + (node \<times> int)" where
  "fit_self search p n_total rules ignore_patterns n =
     (let pth = join_path_str (path (data n));
          vz = (\<lambda>t. if t \<in> type (data n) then get_vectorizer search rules t pth else None);
          d0 = (data n)\<lparr>pos := p\<rparr> in
      case fit_types search pth n_total ignore_patterns (map fst (sorted_properties n))
             (length (sorted_types (type d0)) > 1) vz (sorted_types (type d0)) d0 of
        Inl e \<Rightarrow> Inl e
      | Inr d \<Rightarrow> Inr (Node d (properties n) (items n), p + int (length (feature_names d))))"

lemma fit_self_children:
  "fit_self search p n_total rules ign n = Inr (n1, p1) \<Longrightarrow>
   properties n1 = properties n \<and> items n1 = items n"
  by (auto simp: fit_self_def Let_def split: sum.splits)

lemma size_children:
  "size_list (size_prod (\<lambda>_. 0) size) (properties n) < size n"
  "size_list size (items n) < size n"
  by (cases n; simp)+

lemma size_child_property: "c \<in> snd ` set (properties n) \<Longrightarrow> size c < size n"
proof (cases n)
  case (Node d ps its)
  have "(k, c) \<in> set ps \<Longrightarrow> size c < Suc (size_list (size_prod (\<lambda>_. 0) size) ps)"
    for k and ps :: "(string \<times> node) list"
    by (induction ps) auto
  then show "c \<in> snd ` set (properties n) \<Longrightarrow> size c < size n" using Node by fastforce
qed

lemma size_child_item: "c \<in> set (items n) \<Longrightarrow> size c < size n"
proof (cases n)
  case (Node d ps its)
  have "c \<in> set its \<Longrightarrow> size c < Suc (size_list size its)" for its :: "node list"
    by (induction its) auto
  then show "c \<in> set (items n) \<Longrightarrow> size c < size n" using Node by fastforce
qed

text \<open>The property \<^verbatim>\<open>feature_names_\<close>.\<close>

function feature_names_prop :: "node \<Rightarrow> string list" where
  "feature_names_prop n =
     feature_names (data n)
     @ concat (map feature_names_prop (map snd (sorted_properties n)))
     @ concat (map feature_names_prop (items n))"
  by pat_completeness auto
termination
  by (relation "measure size") (auto simp: sorted_properties_def size_child_property size_child_item)

declare feature_names_prop.simps [simp del]

text \<open>
  \<^verbatim>\<open>_fit\<close> (\<open>fit_node\<close>): the self step, the properties in sorted order, the items in
  index order, the running position threaded through; the fitted children replace the
  old ones in place, then \<^verbatim>\<open>n_features\<close> is set.
\<close>

function fit_node ::
    "(string \<Rightarrow> string \<Rightarrow> bool) \<Rightarrow> int \<Rightarrow> int \<Rightarrow> rule list \<Rightarrow> string list \<Rightarrow> node \<Rightarrow> error + (node \<times> int)"
  and fit_props ::
    "(string \<Rightarrow> string \<Rightarrow> bool) \<Rightarrow> int \<Rightarrow> int \<Rightarrow> rule list \<Rightarrow> string list \<Rightarrow> (string \<times> node) list \<Rightarrow>
     error + ((string \<times> node) list \<times> int)"
  and fit_items ::
    "(string \<Rightarrow> string \<Rightarrow> bool) \<Rightarrow> int \<Rightarrow> int \<Rightarrow> rule list \<Rightarrow> string list \<Rightarrow> node list \<Rightarrow>
     error + (node list \<times> int)"
where
  "fit_node search p n_total rules ign n =
     (case fit_self search p n_total rules ign n of
        Inl e \<Rightarrow> Inl e
      | Inr (n1, p1) \<Rightarrow>
          (case fit_props search p1 n_total rules ign (sorted_properties n1) of
             Inl e \<Rightarrow> Inl e
           | Inr (kcs, p2) \<Rightarrow>
               (case fit_items search p2 n_total rules ign (items n1) of
                  Inl e \<Rightarrow> Inl e
                | Inr (cs, p3) \<Rightarrow>
                    (let n2 = Node (data n1)
                                (fold (\<lambda>kc ps. AList.update (fst kc) (snd kc) ps) kcs (properties n1)) cs in
                     Inr (Node ((data n2)\<lparr>n_features := int (length (feature_names_prop n2))\<rparr>)
                            (properties n2) (items n2), p3)))))"
| "fit_props search p n_total rules ign [] = Inr ([], p)"
| "fit_props search p n_total rules ign ((name, c) # kcs) =
     (case fit_node search p n_total rules ign c of
        Inl e \<Rightarrow> Inl e
      | Inr (c', p') \<Rightarrow>
          (case fit_props search p' n_total rules ign kcs of
             Inl e \<Rightarrow> Inl e
           | Inr (rest, p'') \<Rightarrow> Inr ((name, c') # rest, p'')))"
| "fit_items search p n_total rules ign [] = Inr ([], p)"
| "fit_items search p n_total rules ign (c # cs) =
     (case fit_node search p n_total rules ign c of
        Inl e \<Rightarrow> Inl e
      | Inr (c', p') \<Rightarrow>
          (case fit_items search p' n_total rules ign cs of
             Inl e \<Rightarrow> Inl e
           | Inr (rest, p'') \<Rightarrow> Inr (c' # rest, p'')))"
  by pat_completeness auto
termination
  apply (relation "measure (\<lambda>x. case x of
      Inl (S, p, N, rules, ign, n) \<Rightarrow> size n
    | Inr (Inl (S, p, N, rules, ign, kcs)) \<Rightarrow> size_list (size_prod (\<lambda>_. 0) size) kcs
    | Inr (Inr (S, p, N, rules, ign, cs)) \<Rightarrow> size_list size cs)")
  apply (auto simp: sorted_properties_def size_children dest!: fit_self_children)
  done

text \<open>\<^verbatim>\<open>fit\<close>.\<close>

definition fit ::
  "nat \<Rightarrow> (string \<Rightarrow> bool) \<Rightarrow> (string \<Rightarrow> string \<Rightarrow> bool) \<Rightarrow> doc list \<Rightarrow> rule list \<Rightarrow> string list \<Rightarrow> node \<Rightarrow> error + node" where
  "fit V ts search docs rules ignore_patterns n =
     (case extend V ts n docs of
        Inl e \<Rightarrow> Inl e
      | Inr n1 \<Rightarrow>
          (case fit_node search 0 (sum_counts n1) rules ignore_patterns n1 of
             Inl e \<Rightarrow> Inl e
           | Inr (n2, p) \<Rightarrow> Inr n2))"

section \<open>Concrete inputs\<close>

text \<open>A timestamp parser that accepts nothing, for the evaluations below.\<close>

definition no_timestamps :: "string \<Rightarrow> bool" where
  "no_timestamps s = False"

text \<open>The \<^verbatim>\<open>required\<close> attribute of the node a call leaves behind.\<close>

definition result_required :: "error + node \<Rightarrow> string set option" where
  "result_required r = (case r of Inl e \<Rightarrow> None | Inr n \<Rightarrow> required (data n))"

text \<open>The root after \<^verbatim>\<open>extend([{}])\<close>: it has seen one object, without keys.\<close>

definition seen_empty_object :: node where
  "seen_empty_object =
     Node \<lparr>path = [SStr ''root''], tuple_items = False, type = {OBJECT}, required = Some {},
            counts = [OBJECT \<mapsto> 1], node_values = Map.empty, vectorizers = Map.empty, pos = 0,
            feature_names = [], n_features = 0\<rparr> [] []"

fun is_object :: "doc \<Rightarrow> bool" where
  "is_object (DDict kvs) = True"
| "is_object d = False"

text \<open>
  The association list of every node of the tree represents a dictionary: no key twice.
\<close>

fun distinct_keys :: "node \<Rightarrow> bool" where
  "distinct_keys (Node d ps its) =
     (distinct (map fst ps) \<and> list_all (\<lambda>kc. distinct_keys (snd kc)) ps \<and> list_all distinct_keys its)"

text \<open>
  Two trees agree on the type set, the counts, the required set, the property names and
  the number of items, at every node.
\<close>

fun same_shape :: "node \<Rightarrow> node \<Rightarrow> bool" where
  "same_shape (Node d ps its) (Node d' ps' its') =
     (type d = type d' \<and> counts d = counts d' \<and> required d = required d' \<and>
      map fst ps = map fst ps' \<and> length its = length its' \<and>
      list_all2 same_shape (map snd ps) (map snd ps') \<and> list_all2 same_shape its its')"

text \<open>The root after \<^verbatim>\<open>extend([{"a": 1}])\<close>.\<close>

definition learned_a :: node where
  "learned_a =
     Node \<lparr>path = [SStr ''root''], tuple_items = False, type = {OBJECT}, required = Some {''a''},
            counts = [OBJECT \<mapsto> 1], node_values = Map.empty, vectorizers = Map.empty, pos = 0,
            feature_names = [], n_features = 0\<rparr>
       [(''a'',
         Node \<lparr>path = [SStr ''root'', SStr ''a''], tuple_items = False, type = {NUMBER},
                required = None, counts = [NUMBER \<mapsto> 1], node_values = [NUMBER \<mapsto> [DInt 1]],
                vectorizers = Map.empty, pos = 0, feature_names = [], n_features = 0\<rparr> [] [])]
       []"

text \<open>A pattern matcher that finds nothing, for the evaluations below.\<close>

definition never_matches :: "string \<Rightarrow> string \<Rightarrow> bool" where
  "never_matches pattern s = False"

text \<open>
  \<^verbatim>\<open>int(f * total)\<close> with the product taken exactly: truncation toward zero. The
  evaluations below use it where the floating-point product is exact.
\<close>

definition exact_scale :: "rat \<Rightarrow> int \<Rightarrow> int" where
  "exact_scale f k = (let x = f * of_int k in if 0 \<le> x then \<lfloor>x\<rfloor> else \<lceil>x\<rceil>)"

text \<open>
  The trees on which pruning with no pattern and threshold 0 has nothing to drop: at every
  node the path is made of strings, the type set is not empty and has a non-negative
  count for each type, and no property name occurs twice.
\<close>

fun prunable :: "node \<Rightarrow> bool" where
  "prunable (Node d ps its) =
     (list_all seg_is_str (path d) \<and> type d \<noteq> {} \<and>
      list_all (\<lambda>t. case counts d t of None \<Rightarrow> False | Some c \<Rightarrow> 0 \<le> c) (sorted_types (type d)) \<and>
      distinct (map fst ps) \<and> list_all (\<lambda>kc. prunable (snd kc)) ps \<and> list_all prunable its)"

text \<open>The shared-mode root after \<^verbatim>\<open>extend([[]])\<close>: its item child has seen nothing.\<close>

definition learned_empty_array :: node where
  "learned_empty_array =
     Node \<lparr>path = [SStr ''root''], tuple_items = False, type = {ARRAY}, required = None,
            counts = [ARRAY \<mapsto> 1], node_values = Map.empty, vectorizers = Map.empty, pos = 0,
            feature_names = [], n_features = 0\<rparr>
       [] [new_node [SStr ''root'', SStr ''any''] False]"

text \<open>
  The child step of pruning in the words of the specification: a child whose path matches
  a pattern is dropped and recorded without recursing; otherwise it is pruned, and dropped
  if its type set is empty afterwards. The result is the recorded paths and the child
  kept, if any.
\<close>

definition prune_child_spec ::
  "(rat \<Rightarrow> int \<Rightarrow> int) \<Rightarrow> (string \<Rightarrow> string \<Rightarrow> bool) \<Rightarrow> string list \<Rightarrow> int \<Rightarrow> node \<Rightarrow>
   error + (string list \<times> node option)" where
  "prune_child_spec fscale search patterns m c =
     (case join_path (path (data c)) of
        Inl e \<Rightarrow> Inl e
      | Inr pth \<Rightarrow>
          if hasmatch search pth patterns then Inr ([pth], None)
          else (case prune fscale search patterns (MInt m) c of
                  Inl e \<Rightarrow> Inl e
                | Inr (ps, c') \<Rightarrow> Inr (ps, if type (data c') = {} then None else Some c')))"

text \<open>The effect of one child's outcome on the dictionary of properties.\<close>

definition apply_child :: "string \<times> node \<Rightarrow> string list \<times> node option \<Rightarrow> (string \<times> node) list \<Rightarrow> (string \<times> node) list" where
  "apply_child kc r ps =
     (case snd r of None \<Rightarrow> AList.delete (fst kc) ps | Some c' \<Rightarrow> AList.update (fst kc) c' ps)"

text \<open>
  A shared-mode array node with two item schemas, as \<^verbatim>\<open>from_dict\<close> builds it from a
  schema whose \<^verbatim>\<open>items\<close> is a list of two: each item is an object seen five times with
  one string property seen once.
\<close>

definition shared_item :: "string \<Rightarrow> node" where
  "shared_item name =
     Node \<lparr>path = [SStr ''root'', SStr ''any''], tuple_items = False, type = {OBJECT},
            required = Some {}, counts = [OBJECT \<mapsto> 5], node_values = Map.empty,
            vectorizers = Map.empty, pos = 0, feature_names = [], n_features = 0\<rparr>
       [(name,
         Node \<lparr>path = [SStr ''root'', SStr ''any'', SStr name], tuple_items = False,
                type = {STRING}, required = None, counts = [STRING \<mapsto> 1],
                node_values = [STRING \<mapsto> [DStr ''s'']], vectorizers = Map.empty, pos = 0,
                feature_names = [], n_features = 0\<rparr> [] [])]
       []"

definition two_items :: node where
  "two_items =
     Node \<lparr>path = [SStr ''root''], tuple_items = False, type = {ARRAY}, required = None,
            counts = [ARRAY \<mapsto> 5], node_values = Map.empty, vectorizers = Map.empty, pos = 0,
            feature_names = [], n_features = 0\<rparr>
       [] [shared_item ''x'', shared_item ''y'']"

text \<open>
  The root after \<^verbatim>\<open>extend([{"a": "x"}, {}, {}, {}])\<close> and its child \<^verbatim>\<open>a\<close>: four
  observations at the root, one at the child.
\<close>

definition sparse_child :: node where
  "sparse_child =
     Node \<lparr>path = [SStr ''root'', SStr ''a''], tuple_items = False, type = {STRING},
            required = None, counts = [STRING \<mapsto> 1], node_values = [STRING \<mapsto> [DStr ''x'']],
            vectorizers = Map.empty, pos = 0, feature_names = [], n_features = 0\<rparr> [] []"

definition sparse_root :: node where
  "sparse_root =
     Node \<lparr>path = [SStr ''root''], tuple_items = False, type = {OBJECT}, required = Some {},
            counts = [OBJECT \<mapsto> 4], node_values = Map.empty, vectorizers = Map.empty, pos = 0,
            feature_names = [], n_features = 0\<rparr>
       [(''a'', sparse_child)] []"

text \<open>The tuple-mode root after \<^verbatim>\<open>extend([[1]])\<close>.\<close>

definition learned_tuple :: node where
  "learned_tuple =
     Node \<lparr>path = [SStr ''root''], tuple_items = True, type = {ARRAY}, required = None,
            counts = [ARRAY \<mapsto> 1], node_values = Map.empty, vectorizers = Map.empty, pos = 0,
            feature_names = [], n_features = 0\<rparr>
       []
       [Node \<lparr>path = [SStr ''root'', SInt 0], tuple_items = True, type = {NUMBER},
               required = None, counts = [NUMBER \<mapsto> 1], node_values = [NUMBER \<mapsto> [DInt 1]],
               vectorizers = Map.empty, pos = 0, feature_names = [], n_features = 0\<rparr> [] []]"

section \<open>The layout of a fitted tree\<close>

text \<open>
  The children of a node in the order every traversal takes them: the properties in
  lexicographic order, then the items in index order.
\<close>

definition child_nodes :: "node \<Rightarrow> node list" where
  "child_nodes n = map snd (sorted_properties n) @ items n"

lemma size_child_pair: "(k, c) \<in> set (properties n) \<Longrightarrow> size c < size n"
  by (rule size_child_property) force

lemma size_child_node: "c \<in> set (child_nodes n) \<Longrightarrow> size c < size n"
  by (auto simp: child_nodes_def sorted_properties_def size_child_pair size_child_item)

text \<open>The nodes of a tree in pre-order.\<close>

function all_nodes :: "node \<Rightarrow> node list" where
  "all_nodes n = n # concat (map all_nodes (child_nodes n))"
  by pat_completeness auto
termination
  by (relation "measure size") (auto simp: size_child_node)

declare all_nodes.simps [simp del]

text \<open>
  \<open>starts_at p ms\<close>: the nodes \<open>ms\<close> hold consecutive blocks of columns from \<open>p\<close> on,
  each stored position being \<open>p\<close> plus the number of local feature names of the nodes
  before it in the list.
\<close>

fun starts_at :: "int \<Rightarrow> node list \<Rightarrow> bool" where
  "starts_at p [] = True"
| "starts_at p (m # ms) =
     (pos (data m) = p \<and> starts_at (p + int (length (feature_names (data m)))) ms)"

text \<open>The root after \<^verbatim>\<open>extend([{"a": 1, "b": "x"}, {"a": None}])\<close>.\<close>

definition learned_ab :: node where
  "learned_ab =
     Node \<lparr>path = [SStr ''root''], tuple_items = False, type = {OBJECT}, required = Some {''a''},
            counts = [OBJECT \<mapsto> 2], node_values = Map.empty, vectorizers = Map.empty, pos = 0,
            feature_names = [], n_features = 0\<rparr>
       [(''a'',
         Node \<lparr>path = [SStr ''root'', SStr ''a''], tuple_items = False, type = {JNULL, NUMBER},
                required = None, counts = [NUMBER \<mapsto> 1, JNULL \<mapsto> 1],
                node_values = [NUMBER \<mapsto> [DInt 1]], vectorizers = Map.empty, pos = 0,
                feature_names = [], n_features = 0\<rparr> [] []),
        (''b'',
         Node \<lparr>path = [SStr ''root'', SStr ''b''], tuple_items = False, type = {STRING},
                required = None, counts = [STRING \<mapsto> 1], node_values = [STRING \<mapsto> [DStr ''x'']],
                vectorizers = Map.empty, pos = 0, feature_names = [], n_features = 0\<rparr> [] [])]
       []"

section \<open>Transforming\<close>

text \<open>
  The first loop of \<^verbatim>\<open>_transform\<close>: the positions in the batch of the documents of each
  type of the node, in batch order. A type is a key of \<^verbatim>\<open>indices_by_type\<close> when its
  list is not empty. Classifying a document may raise.
\<close>

fun index_by_type ::
  "nat \<Rightarrow> (string \<Rightarrow> bool) \<Rightarrow> JsonType set \<Rightarrow> doc list \<Rightarrow> nat \<Rightarrow> (JsonType \<Rightarrow> nat list) \<Rightarrow>
   error + (JsonType \<Rightarrow> nat list)" where
  "index_by_type V ts T [] i ibt = Inr ibt"
| "index_by_type V ts T (d # ds) i ibt =
     (case typeof V ts d of
        Inl e \<Rightarrow> Inl e
      | Inr json_type \<Rightarrow>
          index_by_type V ts T ds (Suc i)
            (if json_type \<in> T then ibt(json_type := ibt json_type @ [i]) else ibt))"

text \<open>
  \<^verbatim>\<open>indices_by_property\<close>, a dictionary in insertion order: for each object of the batch
  and each of its keys that is a property of the node, the position is appended to the
  list of that name.
\<close>

definition group_add :: "string \<Rightarrow> nat \<Rightarrow> (string \<times> nat list) list \<Rightarrow> (string \<times> nat list) list" where
  "group_add name i g =
     (case map_of g name of
        Some l \<Rightarrow> AList.update name (l @ [i]) g
      | None \<Rightarrow> g @ [(name, [i])])"

definition index_by_property :: "node \<Rightarrow> doc list \<Rightarrow> nat list \<Rightarrow> (string \<times> nat list) list" where
  "index_by_property n docs objs =
     fold (\<lambda>i g.
        fold (\<lambda>name g'. if name \<in> fst ` set (properties n) then group_add name i g' else g')
          (doc_keys (docs ! i)) g)
       objs []"

text \<open>
  \<^verbatim>\<open>indices_by_item\<close>: for each array of the batch and each position \<open>j\<close> with
  \<^verbatim>\<open>j * self.tuple_items < len(self.items)\<close>, the position of the array is appended to
  the \<open>j\<close>-th list, or a new list is appended.
\<close>

definition index_by_item :: "node \<Rightarrow> doc list \<Rightarrow> nat list \<Rightarrow> nat list list" where
  "index_by_item n docs arrs =
     fold (\<lambda>i ibi.
        fold (\<lambda>j ibi'.
            if j * (if tuple_items (data n) then 1 else 0) < length (items n) then
              (if j < length ibi' then ibi'[j := ibi' ! j @ [i]] else ibi' @ [[i]])
            else ibi')
          [0..<doc_len (docs ! i)] ibi)
       arrs []"

text \<open>\<^verbatim>\<open>indices[indices_]\<close>: the row numbers at the given positions.\<close>

definition take_rows :: "nat list \<Rightarrow> nat list \<Rightarrow> error + nat list" where
  "take_rows indices ks =
     (if list_all (\<lambda>k. k < length indices) ks then Inr (map (\<lambda>k. indices ! k) ks)
      else Inl IndexError)"

text \<open>\<^verbatim>\<open>docs[i][name]\<close> and \<^verbatim>\<open>docs[i][j]\<close>.\<close>

fun doc_get :: "doc \<Rightarrow> string \<Rightarrow> error + doc" where
  "doc_get (DDict kvs) name = (case map_of kvs name of None \<Rightarrow> Inl KeyError | Some v \<Rightarrow> Inr v)"
| "doc_get d name = Inl TypeError"

fun doc_elem :: "doc \<Rightarrow> nat \<Rightarrow> error + doc" where
  "doc_elem (DList ds) j = (if j < length ds then Inr (ds ! j) else Inl IndexError)"
| "doc_elem d j = Inl TypeError"

text \<open>A list comprehension whose element expression may raise.\<close>

fun collect :: "('a \<Rightarrow> error + 'b) \<Rightarrow> 'a list \<Rightarrow> error + 'b list" where
  "collect f [] = Inr []"
| "collect f (x # xs) =
     (case f x of
        Inl e \<Rightarrow> Inl e
      | Inr y \<Rightarrow> (case collect f xs of Inl e \<Rightarrow> Inl e | Inr ys \<Rightarrow> Inr (y # ys)))"

text \<open>
  The inner loop of \<^verbatim>\<open>_transform_self\<close> over the sorted property names: one column for
  each property that is not required, set for the rows whose object has the property.
\<close>

fun transform_optional ::
  "lil \<Rightarrow> int \<Rightarrow> nat list \<Rightarrow> (string \<times> nat list) list \<Rightarrow> string set option \<Rightarrow> string list \<Rightarrow>
   error + (lil \<times> int)" where
  "transform_optional X p indices ibp req [] = Inr (X, p)"
| "transform_optional X p indices ibp req (name # names) =
     (case req of
        None \<Rightarrow> Inl TypeError
      | Some r \<Rightarrow>
          if name \<notin> r then
            (case map_of ibp name of
               None \<Rightarrow> transform_optional X (p + 1) indices ibp req names
             | Some ks \<Rightarrow>
                 (case take_rows indices ks of
                    Inl e \<Rightarrow> Inl e
                  | Inr rows \<Rightarrow>
                      (case lil_set_col X rows p of
                         Inl e \<Rightarrow> Inl e
                       | Inr X' \<Rightarrow> transform_optional X' (p + 1) indices ibp req names)))
          else transform_optional X p indices ibp req names)"

text \<open>
  The loop of \<^verbatim>\<open>_transform_self\<close> over \<^verbatim>\<open>sorted(self.type)\<close>: the type indicator
  (\<open>multi\<close> is \<^verbatim>\<open>len(self.type) > 1\<close>), the optional properties of an object, the
  columns of the fitted extractor.
\<close>

fun transform_types ::
  "node \<Rightarrow> doc list \<Rightarrow> nat list \<Rightarrow> (JsonType \<Rightarrow> nat list) \<Rightarrow> (string \<times> nat list) list \<Rightarrow> bool \<Rightarrow>
   JsonType list \<Rightarrow> lil \<times> int \<Rightarrow> error + (lil \<times> int)" where
  "transform_types n docs indices ibt ibp multi [] st = Inr st"
| "transform_types n docs indices ibt ibp multi (t # ts) (X, p) =
     (case (if multi then
              (if ibt t \<noteq> [] then
                 (case take_rows indices (ibt t) of
                    Inl e \<Rightarrow> Inl e
                  | Inr rows \<Rightarrow>
                      (case lil_set_col X rows p of Inl e \<Rightarrow> Inl e | Inr X' \<Rightarrow> Inr (X', p + 1)))
               else Inr (X, p + 1))
            else Inr (X, p)) of
        Inl e \<Rightarrow> Inl e
      | Inr (X1, p1) \<Rightarrow>
     (case (if t = OBJECT then
              transform_optional X1 p1 indices ibp (required (data n)) (map fst (sorted_properties n))
            else Inr (X1, p1)) of
        Inl e \<Rightarrow> Inl e
      | Inr (X2, p2) \<Rightarrow>
     (case vectorizers (data n) t of
        None \<Rightarrow> transform_types n docs indices ibt ibp multi ts (X2, p2)
      | Some v \<Rightarrow>
          (case (if ibt t \<noteq> [] then
                   (case take_rows indices (ibt t) of
                      Inl e \<Rightarrow> Inl e
                    | Inr rows \<Rightarrow>
                        (let pairs = vtransform v (map (\<lambda>i. docs ! i) (ibt t)) in
                         case take_rows rows (map fst pairs) of
                           Inl e \<Rightarrow> Inl e
                         | Inr rs \<Rightarrow> lil_set X2 rs (map (\<lambda>rc. p2 + int (snd rc)) pairs)))
                 else Inr X2) of
             Inl e \<Rightarrow> Inl e
           | Inr X3 \<Rightarrow>
               transform_types n docs indices ibt ibp multi ts
                 (X3, p2 + int (length (vfeature_names v)))))))"

definition transform_self ::
  "node \<Rightarrow> doc list \<Rightarrow> lil \<Rightarrow> nat list \<Rightarrow> (JsonType \<Rightarrow> nat list) \<Rightarrow> (string \<times> nat list) list \<Rightarrow>
   error + lil" where
  "transform_self n docs X indices ibt ibp =
     (case transform_types n docs indices ibt ibp (length (sorted_types (type (data n))) > 1)
             (sorted_types (type (data n))) (X, pos (data n)) of
        Inl e \<Rightarrow> Inl e
      | Inr (X', p) \<Rightarrow> Inr X')"

text \<open>
  One iteration of the loop over the properties: the sub-batch
  \<^verbatim>\<open>[docs[i][name] for i in indices_]\<close> and its rows.
\<close>

definition property_call ::
  "doc list \<Rightarrow> nat list \<Rightarrow> string \<Rightarrow> nat list \<Rightarrow> error + (doc list \<times> nat list)" where
  "property_call docs indices name ks =
     (case collect (\<lambda>i. doc_get (docs ! i) name) ks of
        Inl e \<Rightarrow> Inl e
      | Inr sub \<Rightarrow>
          (case take_rows indices ks of Inl e \<Rightarrow> Inl e | Inr rows \<Rightarrow> Inr (sub, rows)))"

text \<open>
  One iteration of the loop over \<^verbatim>\<open>enumerate(indices_by_item)\<close>: the sub-batch
  \<^verbatim>\<open>[docs[i][j] for i in indices_]\<close>, its rows, and the index of the child that
  \<^verbatim>\<open>self.get_item(i)\<close> (tuple mode) or \<^verbatim>\<open>self.get_item(0)\<close> reads. The source
  indexes with \<open>i\<close>, not with the loop variable \<open>j\<close>. \<open>i\<close> is the C variable of the
  function: when the comprehension shares the scope of the function (\<open>leak\<close>, Cython's
  language level 2) it is left at the last element of \<^verbatim>\<open>indices_\<close>; when the
  comprehension has a scope of its own it still holds the last array position, from the
  loop that built \<^verbatim>\<open>indices_by_item\<close>.
\<close>

definition item_call ::
  "bool \<Rightarrow> node \<Rightarrow> doc list \<Rightarrow> nat list \<Rightarrow> nat list \<Rightarrow> nat \<Rightarrow> nat list \<Rightarrow>
   error + (nat \<times> doc list \<times> nat list)" where
  "item_call leak n docs indices arrs j ks =
     (case collect (\<lambda>i. doc_elem (docs ! i) j) ks of
        Inl e \<Rightarrow> Inl e
      | Inr sub \<Rightarrow>
          (case take_rows indices ks of
             Inl e \<Rightarrow> Inl e
           | Inr rows \<Rightarrow>
               Inr (if tuple_items (data n) then (if leak then last ks else last arrs) else 0,
                    sub, rows)))"

text \<open>
  \<^verbatim>\<open>_transform\<close> (\<open>transform_node\<close>): partition the batch, write this node's columns,
  recurse into the properties in the order of \<^verbatim>\<open>sorted(indices_by_property.items())\<close>,
  then into the items.
\<close>

function transform_node ::
    "nat \<Rightarrow> (string \<Rightarrow> bool) \<Rightarrow> bool \<Rightarrow> node \<Rightarrow> doc list \<Rightarrow> lil \<Rightarrow> nat list \<Rightarrow> error + lil"
  and transform_props ::
    "nat \<Rightarrow> (string \<Rightarrow> bool) \<Rightarrow> bool \<Rightarrow> node \<Rightarrow> doc list \<Rightarrow> nat list \<Rightarrow> lil \<Rightarrow>
     (string \<times> nat list) list \<Rightarrow> error + lil"
  and transform_items ::
    "nat \<Rightarrow> (string \<Rightarrow> bool) \<Rightarrow> bool \<Rightarrow> node \<Rightarrow> doc list \<Rightarrow> nat list \<Rightarrow> nat list \<Rightarrow> lil \<Rightarrow> nat \<Rightarrow>
     nat list list \<Rightarrow> error + lil"
where
  "transform_node V ts leak n docs X indices =
     (case index_by_type V ts (type (data n)) docs 0 (\<lambda>t. []) of
        Inl e \<Rightarrow> Inl e
      | Inr ibt \<Rightarrow>
          (let ibp = (if ibt OBJECT \<noteq> [] then index_by_property n docs (ibt OBJECT) else []);
               ibi = (if ibt ARRAY \<noteq> [] then index_by_item n docs (ibt ARRAY) else [])
           in case transform_self n docs X indices ibt ibp of
                Inl e \<Rightarrow> Inl e
              | Inr X1 \<Rightarrow>
                  (case (if ibt OBJECT \<noteq> [] then
                           transform_props V ts leak n docs indices X1 (sort_key fst ibp)
                         else Inr X1) of
                     Inl e \<Rightarrow> Inl e
                   | Inr X2 \<Rightarrow>
                       (if ibt ARRAY \<noteq> [] then
                          transform_items V ts leak n docs indices (ibt ARRAY) X2 0 ibi
                        else Inr X2))))"
| "transform_props V ts leak n docs indices X [] = Inr X"
| "transform_props V ts leak n docs indices X ((name, ks) # groups) =
     (case property_call docs indices name ks of
        Inl e \<Rightarrow> Inl e
      | Inr (sub, rows) \<Rightarrow>
          (case map_of (properties n) name of
             None \<Rightarrow> Inl KeyError
           | Some c \<Rightarrow>
               (case transform_node V ts leak c sub X rows of
                  Inl e \<Rightarrow> Inl e
                | Inr X' \<Rightarrow> transform_props V ts leak n docs indices X' groups)))"
| "transform_items V ts leak n docs indices arrs X j [] = Inr X"
| "transform_items V ts leak n docs indices arrs X j (ks # groups) =
     (case item_call leak n docs indices arrs j ks of
        Inl e \<Rightarrow> Inl e
      | Inr (k, sub, rows) \<Rightarrow>
          if k < length (items n) then
            (case transform_node V ts leak (items n ! k) sub X rows of
               Inl e \<Rightarrow> Inl e
             | Inr X' \<Rightarrow> transform_items V ts leak n docs indices arrs X' (Suc j) groups)
          else Inl IndexError)"
  by pat_completeness auto
termination
  apply (relation "inv_image (less_than <*lex*> less_than <*lex*> less_than) (\<lambda>x. case x of
      Inl (V, ts, leak, n, docs, X, indices) \<Rightarrow> (size n, 1::nat, 0::nat)
    | Inr (Inl (V, ts, leak, n, docs, indices, X, groups)) \<Rightarrow> (size n, 0, length groups)
    | Inr (Inr (V, ts, leak, n, docs, indices, arrs, X, j, groups)) \<Rightarrow> (size n, 0, length groups))")
  apply (auto dest!: map_of_SomeD intro: size_child_item)
  apply (rule size_child_property, force)
  done

declare transform_node.simps [simp del]

text \<open>\<^verbatim>\<open>transform\<close>: an empty matrix with one row per document, rows numbered from 0.\<close>

definition transform :: "nat \<Rightarrow> (string \<Rightarrow> bool) \<Rightarrow> bool \<Rightarrow> node \<Rightarrow> doc list \<Rightarrow> error + lil" where
  "transform V ts leak n docs =
     transform_node V ts leak n docs
       (replicate (length docs) [], replicate (length docs) []) [0..<length docs]"


text \<open>
  The calls that the loop over the items of \<^verbatim>\<open>_transform\<close> makes at a node for a batch:
  the index of the child read, the sub-batch and its rows, in the order of the loop.
\<close>

definition items_loop_calls ::
  "nat \<Rightarrow> (string \<Rightarrow> bool) \<Rightarrow> bool \<Rightarrow> node \<Rightarrow> doc list \<Rightarrow> nat list \<Rightarrow>
   error + (nat \<times> doc list \<times> nat list) list" where
  "items_loop_calls V ts leak n docs indices =
     (case index_by_type V ts (type (data n)) docs 0 (\<lambda>t. []) of
        Inl e \<Rightarrow> Inl e
      | Inr ibt \<Rightarrow>
          (let ibi = (if ibt ARRAY \<noteq> [] then index_by_item n docs (ibt ARRAY) else []) in
           collect (\<lambda>jk. item_call leak n docs indices (ibt ARRAY) (fst jk) (snd jk))
             (zip [0..<length ibi] ibi)))"

text \<open>\<^verbatim>\<open>JsonVectorizer(...).fit(train, rules, ignore).transform(batch)\<close> on a given new root.\<close>

definition fit_then_transform ::
  "nat \<Rightarrow> (string \<Rightarrow> bool) \<Rightarrow> (string \<Rightarrow> string \<Rightarrow> bool) \<Rightarrow> bool \<Rightarrow> node \<Rightarrow> doc list \<Rightarrow> rule list \<Rightarrow>
   string list \<Rightarrow> doc list \<Rightarrow> error + lil" where
  "fit_then_transform V ts search leak n train rules ignore_patterns batch =
     (case fit V ts search train rules ignore_patterns n of
        Inl e \<Rightarrow> Inl e
      | Inr n' \<Rightarrow> transform V ts leak n' batch)"

text \<open>The calls of the items loop at the root after the same \<^verbatim>\<open>fit\<close>.\<close>

definition fit_then_items_loop_calls ::
  "nat \<Rightarrow> (string \<Rightarrow> bool) \<Rightarrow> (string \<Rightarrow> string \<Rightarrow> bool) \<Rightarrow> bool \<Rightarrow> node \<Rightarrow> doc list \<Rightarrow> rule list \<Rightarrow>
   string list \<Rightarrow> doc list \<Rightarrow> error + (nat \<times> doc list \<times> nat list) list" where
  "fit_then_items_loop_calls V ts search leak n train rules ignore_patterns batch =
     (case fit V ts search train rules ignore_patterns n of
        Inl e \<Rightarrow> Inl e
      | Inr n' \<Rightarrow> items_loop_calls V ts leak n' batch [0..<length batch])"

section \<open>Properties of the classifier\<close>

lemma typeof_cases:
  "typeof V ts d \<in> {Inl TypeError, Inr OBJECT, Inr ARRAY, Inr JNULL, Inr BOOLEAN, Inr NUMBER,
     Inr STRING, Inr TIMESTAMP}"
  by (cases d) auto

text \<open>
  Claim C10. The live classifier never returns the integer type, whatever the Python
  version and whatever the timestamp parser answers; every value of exact type
  \<^verbatim>\<open>int\<close> and every float is classified as number, and every \<^verbatim>\<open>bool\<close> as boolean.
\<close>

theorem typeof_never_integer:
  "typeof V ts d \<noteq> Inr INTEGER \<and>
   typeof V ts (DInt i) = Inr NUMBER \<and>
   typeof V ts (DFloat f) = Inr NUMBER \<and>
   typeof V ts (DBool b) = Inr BOOLEAN"
  using typeof_cases [of V ts d] by auto

section \<open>Properties of the sparse insertion\<close>

lemma bisect_loop_spec:
  assumes "sorted a" "lo \<le> hi" "hi \<le> length a"
    "\<forall>k<lo. a ! k < x" "\<forall>k. hi \<le> k \<and> k < length a \<longrightarrow> x \<le> a ! k"
  shows "lo \<le> bisect_loop a x lo hi \<and> bisect_loop a x lo hi \<le> hi \<and>
         (\<forall>k<bisect_loop a x lo hi. a ! k < x) \<and>
         (\<forall>k. bisect_loop a x lo hi \<le> k \<and> k < length a \<longrightarrow> x \<le> a ! k)"
  using assms
proof (induction a x lo hi rule: bisect_loop.induct)
  case (1 a x lo hi)
  show ?case
  proof (cases "lo < hi")
    case False
    then have "bisect_loop a x lo hi = lo" by (subst bisect_loop.simps) simp
    with False "1.prems" show ?thesis by simp
  next
    case True
    define mid where "mid = lo + (hi - lo) div 2"
    have mid: "lo \<le> mid" "mid < hi" using True by (auto simp: mid_def)
    show ?thesis
    proof (cases "a ! mid < x")
      case lt: True
      have low: "\<forall>k<mid + 1. a ! k < x"
      proof (intro allI impI)
        fix k assume "k < mid + 1"
        then have "k \<le> mid" by simp
        then have "a ! k \<le> a ! mid"
          using "1.prems"(1,3) mid by (auto intro: sorted_nth_mono)
        with lt show "a ! k < x" by simp
      qed
      have ih: "mid + 1 \<le> bisect_loop a x (mid + 1) hi \<and> bisect_loop a x (mid + 1) hi \<le> hi \<and>
         (\<forall>k<bisect_loop a x (mid + 1) hi. a ! k < x) \<and>
         (\<forall>k. bisect_loop a x (mid + 1) hi \<le> k \<and> k < length a \<longrightarrow> x \<le> a ! k)"
        using "1.IH"(1)[OF True mid_def refl lt "1.prems"(1) _ "1.prems"(3) low "1.prems"(5)] mid
        by simp
      have eq: "bisect_loop a x lo hi = bisect_loop a x (mid + 1) hi"
        using True lt by (subst bisect_loop.simps) (simp add: mid_def Let_def)
      show ?thesis unfolding eq using ih mid by auto
    next
      case ge: False
      have high: "\<forall>k. mid \<le> k \<and> k < length a \<longrightarrow> x \<le> a ! k"
      proof (intro allI impI)
        fix k assume "mid \<le> k \<and> k < length a"
        then have "a ! mid \<le> a ! k"
          using "1.prems"(1) by (auto intro: sorted_nth_mono)
        with ge show "x \<le> a ! k" by simp
      qed
      have ih: "lo \<le> bisect_loop a x lo mid \<and> bisect_loop a x lo mid \<le> mid \<and>
         (\<forall>k<bisect_loop a x lo mid. a ! k < x) \<and>
         (\<forall>k. bisect_loop a x lo mid \<le> k \<and> k < length a \<longrightarrow> x \<le> a ! k)"
        using "1.IH"(2)[OF True mid_def refl ge "1.prems"(1) _ _ "1.prems"(4) high] mid "1.prems"(3)
        by simp
      have eq: "bisect_loop a x lo hi = bisect_loop a x lo mid"
        using True ge by (subst bisect_loop.simps) (simp add: mid_def Let_def)
      show ?thesis unfolding eq using ih mid by auto
    qed
  qed
qed

lemma bisect_left_spec:
  assumes "sorted a"
  shows "bisect_left a x \<le> length a \<and>
         (\<forall>k<bisect_left a x. a ! k < x) \<and>
         (\<forall>k. bisect_left a x \<le> k \<and> k < length a \<longrightarrow> x \<le> a ! k)"
proof (cases "length a > 0 \<and> x > a ! (length a - 1)")
  case True
  then have eq: "bisect_left a x = length a" by (simp add: bisect_left_def)
  have "\<forall>k<length a. a ! k < x"
  proof (intro allI impI)
    fix k assume "k < length a"
    then have "a ! k \<le> a ! (length a - 1)" using assms by (auto intro: sorted_nth_mono)
    with True show "a ! k < x" by simp
  qed
  then show ?thesis unfolding eq by simp
next
  case False
  then have eq: "bisect_left a x = bisect_loop a x 0 (length a)"
    by (auto simp: bisect_left_def Let_def)
  show ?thesis unfolding eq using bisect_loop_spec[of a 0 "length a" x] assms by simp
qed


lemma strict_sorted_int: "sorted_wrt (<) (a :: int list) \<Longrightarrow> sorted a"
  by (simp add: strict_sorted_iff)

lemma lil_insert_row_present:
  assumes "sorted_wrt (<) row" "length dat = length row" "j \<in> set row"
  shows "\<exists>dat'. lil_insert_row (row, dat) j = Inr (row, dat') \<and> length dat' = length row"
proof -
  let ?p = "bisect_left row j"
  have sp: "?p \<le> length row" "\<forall>k<?p. row ! k < j"
    "\<forall>k. ?p \<le> k \<and> k < length row \<longrightarrow> j \<le> row ! k"
    using bisect_left_spec[OF strict_sorted_int[OF assms(1)], of j] by auto
  from assms(3) obtain m where m: "m < length row" "row ! m = j"
    by (auto simp: in_set_conv_nth)
  have pm: "?p \<le> m" using sp(2) m by (metis not_le_imp_less less_irrefl)
  then have plt: "?p < length row" using m by simp
  have "j \<le> row ! ?p" using sp(3) plt by simp
  moreover have "row ! ?p \<le> row ! m"
    using strict_sorted_int[OF assms(1)] pm m(1) by (auto intro: sorted_nth_mono)
  ultimately have "row ! ?p = j" using m(2) by simp
  then show ?thesis using plt assms(2) by (simp add: lil_insert_row_def Let_def)
qed

lemma lil_insert_row_absent:
  assumes "sorted_wrt (<) row" "length dat = length row" "j \<notin> set row"
  shows "\<exists>row' dat'. lil_insert_row (row, dat) j = Inr (row', dat') \<and>
           length dat' = length row' \<and> sorted_wrt (<) row' \<and> set row' = insert j (set row) \<and>
           length row' = Suc (length row)"
proof -
  let ?p = "bisect_left row j"
  have sp: "?p \<le> length row" "\<forall>k<?p. row ! k < j"
    "\<forall>k. ?p \<le> k \<and> k < length row \<longrightarrow> j \<le> row ! k"
    using bisect_left_spec[OF strict_sorted_int[OF assms(1)], of j] by auto
  have ne: "?p < length row \<Longrightarrow> row ! ?p \<noteq> j" using assms(3) by (metis nth_mem)
  have eq: "lil_insert_row (row, dat) j = Inr (list_insert ?p j row, list_insert ?p True dat)"
  proof (cases "?p = length row")
    case True
    then show ?thesis using assms(2) by (simp add: lil_insert_row_def Let_def list_insert_def)
  next
    case False
    then have "?p < length row" using sp(1) by simp
    with ne False show ?thesis by (simp add: lil_insert_row_def Let_def)
  qed
  have lo: "\<forall>y\<in>set (take ?p row). y < j"
    using sp(1,2) by (auto simp: in_set_conv_nth)
  have hi: "\<forall>y\<in>set (drop ?p row). j < y"
  proof
    fix y assume "y \<in> set (drop ?p row)"
    then obtain k where k: "k < length row - ?p" "y = row ! (?p + k)"
      by (auto simp: in_set_conv_nth)
    then have "j \<le> y" using sp(3) by simp
    moreover have "y \<noteq> j" using k assms(3) by (metis add.commute less_diff_conv nth_mem)
    ultimately show "j < y" by simp
  qed
  have st: "sorted_wrt (<) (take ?p row)" "sorted_wrt (<) (drop ?p row)"
    using assms(1) by (auto intro: sorted_wrt_take sorted_wrt_drop)
  have cross: "\<forall>y\<in>set (take ?p row). \<forall>z\<in>set (drop ?p row). y < z"
    using lo hi by fastforce
  have srt: "sorted_wrt (<) (list_insert ?p j row)"
    unfolding list_insert_def using st lo hi cross by (simp add: sorted_wrt_append)
  have "set (list_insert ?p j row) = insert j (set (take ?p row) \<union> set (drop ?p row))"
    by (auto simp: list_insert_def)
  also have "set (take ?p row) \<union> set (drop ?p row) = set row"
    by (metis append_take_drop_id set_append)
  finally have sets: "set (list_insert ?p j row) = insert j (set row)" .
  have len: "length (list_insert ?p True dat) = length (list_insert ?p j row)"
    "length (list_insert ?p j row) = Suc (length row)"
    using assms(2) sp(1) by (auto simp: list_insert_def)
  show ?thesis using eq srt sets len by simp
qed

lemma lil_insert_row_append:
  assumes "row \<noteq> []" "last row < j"
  shows "lil_insert_row (row, dat) j = Inr (row @ [j], dat @ [True])"
proof -
  have "bisect_left row j = length row"
    using assms by (simp add: bisect_left_def last_conv_nth)
  then show ?thesis by (simp add: lil_insert_row_def)
qed

text \<open>
  Claim C9. On a row whose columns are strictly ascending (with its parallel data list),
  \<^verbatim>\<open>lil_insert\<close> succeeds and the row stays strictly ascending with the column added
  to its set: a column already present leaves the column sequence unchanged, a new
  column lengthens it by one, a column greater than the last element is appended at the
  end, and a second insertion of the same column changes nothing.
\<close>

theorem lil_insert_row_sorted_idempotent:
  assumes "sorted_wrt (<) row" "length dat = length row"
  shows "\<exists>row' dat'. lil_insert_row (row, dat) j = Inr (row', dat') \<and>
           length dat' = length row' \<and> sorted_wrt (<) row' \<and> set row' = insert j (set row) \<and>
           (j \<in> set row \<longrightarrow> row' = row) \<and>
           (j \<notin> set row \<longrightarrow> length row' = Suc (length row)) \<and>
           (row \<noteq> [] \<and> last row < j \<longrightarrow> row' = row @ [j]) \<and>
           (\<exists>dat''. lil_insert_row (row', dat') j = Inr (row', dat''))"
proof (cases "j \<in> set row")
  case True
  from lil_insert_row_present[OF assms True] obtain dat' where
    d: "lil_insert_row (row, dat) j = Inr (row, dat')" "length dat' = length row" by blast
  from lil_insert_row_present[OF assms(1) d(2) True] obtain dat'' where
    d2: "lil_insert_row (row, dat') j = Inr (row, dat'')" by blast
  have "\<not> (row \<noteq> [] \<and> last row < j)"
    using lil_insert_row_append[of row j dat] d(1) by auto
  with d d2 assms(1) True show ?thesis by (auto simp: insert_absorb)
next
  case False
  from lil_insert_row_absent[OF assms False] obtain row' dat' where
    r: "lil_insert_row (row, dat) j = Inr (row', dat')" "length dat' = length row'"
       "sorted_wrt (<) row'" "set row' = insert j (set row)" "length row' = Suc (length row)"
    by blast
  have "j \<in> set row'" using r(4) by simp
  from lil_insert_row_present[OF r(3) r(2) this] obtain dat'' where
    d2: "lil_insert_row (row', dat') j = Inr (row', dat'')" by blast
  have app: "row \<noteq> [] \<and> last row < j \<longrightarrow> row' = row @ [j]"
    using lil_insert_row_append[of row j dat] r(1) by auto
  show ?thesis using r d2 app False by auto
qed

theorem lil_insert_row_sorted_idempotent_witness:
  "sorted_wrt (<) [1, 4, 9 :: int] \<and> length [True, True, True] = length [1, 4, 9 :: int] \<and>
   lil_insert_row ([1, 4, 9], [True, True, True]) 4 = Inr ([1, 4, 9], [True, True, True]) \<and>
   lil_insert_row ([1, 4, 9], [True, True, True]) 6 = Inr ([1, 4, 6, 9], [True, True, True, True]) \<and>
   lil_insert_row ([1, 4, 9], [True, True, True]) 12 = Inr ([1, 4, 9, 12], [True, True, True, True])"
proof -
  have s: "sorted_wrt (<) [1, 4, 9 :: int]" by simp
  have l: "length [True, True, True] = length [1, 4, 9 :: int]" by simp
  have a: "lil_insert_row ([1, 4, 9], [True, True, True]) 4 = Inr ([1, 4, 9], [True, True, True])"
    by (simp add: lil_insert_row_def bisect_left_def bisect_loop.simps list_insert_def Let_def)
  have b: "lil_insert_row ([1, 4, 9], [True, True, True]) 6 = Inr ([1, 4, 6, 9], [True, True, True, True])"
    by (simp add: lil_insert_row_def bisect_left_def bisect_loop.simps list_insert_def Let_def)
  have c: "lil_insert_row ([1, 4, 9], [True, True, True]) 12 = Inr ([1, 4, 9, 12], [True, True, True, True])"
    by (simp add: lil_insert_row_def bisect_left_def bisect_loop.simps list_insert_def Let_def)
  from lil_insert_row_sorted_idempotent[OF s l, of 4] s l a b c show ?thesis by simp
qed

section \<open>Properties of \<^verbatim>\<open>extend\<close>\<close>

lemma add_property_data [simp]: "data (add_property n name) = data n"
  by (simp add: add_property_def)

lemma add_item_data [simp]: "data (add_item n) = data n"
  by (simp add: add_item_def)

lemma fold_add_property_data:
  "data (fold (\<lambda>key m. if key \<notin> fst ` set (properties m) then add_property m key else m) ks n) = data n"
  by (induction ks arbitrary: n) auto

lemma Schema_extend_self_required:
  "required (data (Schema_extend_self n (DDict kvs) OBJECT)) =
     Some ((case required (data n) of None \<Rightarrow> UNIV | Some r \<Rightarrow> r) \<inter> fst ` set kvs)"
  by (auto simp: Schema_extend_self_def Let_def fold_add_property_data split: option.splits)

lemma extend_self_required:
  "required (data (extend_self n (DDict kvs) OBJECT)) =
     Some ((case required (data n) of None \<Rightarrow> UNIV | Some r \<Rightarrow> r) \<inter> fst ` set kvs)"
  using Schema_extend_self_required[of n kvs] by (simp add: extend_self_def Let_def)

lemma extend_props_data: "extend_props V ts n kvs = Inr n' \<Longrightarrow> data n' = data n"
proof (induction kvs arbitrary: n)
  case Nil
  then show ?case by simp
next
  case (Cons kv kvs)
  obtain key v where kv: "kv = (key, v)" by (cases kv)
  from Cons.prems obtain c c' where
    "extend_props V ts (Node (data n) (AList.update key c' (properties n)) (items n)) kvs = Inr n'"
    by (auto simp: kv split: option.splits sum.splits)
  from Cons.IH[OF this] show ?case by simp
qed

lemma extend_doc_dict_required:
  assumes "extend_doc V ts n (DDict kvs) = Inr n'"
  shows "required (data n') =
     Some ((case required (data n) of None \<Rightarrow> UNIV | Some r \<Rightarrow> r) \<inter> set (doc_keys (DDict kvs)))"
proof -
  from assms have "extend_props V ts (extend_self n (DDict kvs) OBJECT) kvs = Inr n'"
    by (simp add: Let_def)
  from extend_props_data[OF this] show ?thesis by (simp add: extend_self_required)
qed

text \<open>
  After \<^verbatim>\<open>extend\<close> has returned on a non-empty sequence of objects, the required set
  is the intersection of their key sets, cut down to the set \<open>r\<close> that the node had
  before when it had one.
\<close>

lemma extend_required_general:
  assumes "list_all is_object docs" "extend V ts n docs = Inr n'" "docs \<noteq> []"
  shows "required (data n') =
     Some ((case required (data n) of None \<Rightarrow> UNIV | Some r \<Rightarrow> r) \<inter> (\<Inter>d\<in>set docs. set (doc_keys d)))"
  using assms
proof (induction docs arbitrary: n)
  case Nil
  then show ?case by simp
next
  case (Cons d docs)
  from Cons.prems(1) obtain kvs where d: "d = DDict kvs" by (cases d) auto
  from Cons.prems(2) obtain n1 where
    n1: "extend_doc V ts n d = Inr n1" and rest: "extend V ts n1 docs = Inr n'"
    by (auto split: sum.splits)
  have r1: "required (data n1) =
     Some ((case required (data n) of None \<Rightarrow> UNIV | Some r \<Rightarrow> r) \<inter> set (doc_keys d))"
    using extend_doc_dict_required n1 d by blast
  show ?case
  proof (cases "docs = []")
    case True
    with rest r1 show ?thesis by simp
  next
    case False
    from Cons.IH[OF _ rest False] Cons.prems(1) r1 show ?thesis by auto
  qed
qed


text \<open>
  Each further object can only shrink the set: a key that an object lacks is not required
  afterwards, and no key is added.
\<close>

lemma extend_required_shrinks:
  assumes "required (data n) = Some r" "is_object d" "extend V ts n [d] = Inr n'"
  shows "required (data n') = Some (r \<inter> set (doc_keys d))"
  using extend_required_general[of "[d]" V ts n n'] assms by simp

text \<open>
  Claim C4. A node that has observed no object has no required set yet
  (\<^verbatim>\<open>self.required is None\<close>), so the first object of the sequence defines the initial
  set. For every such node and every non-empty sequence of objects on which \<^verbatim>\<open>extend\<close>
  returns, the required set afterwards is the intersection of the key sets of the objects.
\<close>

theorem extend_required_intersection:
  assumes "required (data n) = None" "list_all is_object docs" "docs \<noteq> []"
    "extend V ts n docs = Inr n'"
  shows "required (data n') = Some (\<Inter>d\<in>set docs. set (doc_keys d))"
  using extend_required_general[OF assms(2) assms(4) assms(3)] assms(1) by simp

theorem extend_required_intersection_witness:
  "required (data (new_node [SStr ''root''] False)) = None \<and>
   list_all is_object [DDict [(''a'', DInt 1), (''b'', DStr ''x'')], DDict [(''a'', DInt 2)]] \<and>
   result_required (extend 3 no_timestamps (new_node [SStr ''root''] False)
     [DDict [(''a'', DInt 1), (''b'', DStr ''x'')], DDict [(''a'', DInt 2)]]) = Some {''a''}"
proof -
  let ?docs = "[DDict [(''a'', DInt 1), (''b'', DStr ''x'')], DDict [(''a'', DInt 2)]]"
  let ?n = "new_node [SStr ''root''] False"
  have r: "required (data ?n) = None" by (simp add: new_node_def)
  have o: "list_all is_object ?docs" by simp
  have ne: "?docs \<noteq> []" by simp
  obtain n' where e: "extend 3 no_timestamps ?n ?docs = Inr n'"
    by (simp add: extend_self_def Schema_extend_self_def new_node_def Let_def add_property_def
        no_timestamps_def)
  have "required (data n') = Some {''a''}"
    using extend_required_intersection[OF r o ne e] by auto
  with r o e show ?thesis by (simp add: result_required_def)
qed

text \<open>
  On a node that has already observed an object the earlier set is intersected as well:
  the root that has seen \<^verbatim>\<open>{}\<close> keeps the required set \<open>{}\<close> after the object
  \<^verbatim>\<open>{"a": 1}\<close>.
\<close>

lemma extend_required_after_earlier_object:
  "extend 3 no_timestamps (new_node [SStr ''root''] False) [DDict []] = Inr seen_empty_object \<and>
   result_required (extend 3 no_timestamps seen_empty_object [DDict [(''a'', DInt 1)]]) = Some {}"
  by (simp add: result_required_def extend_self_def Schema_extend_self_def new_node_def
      seen_empty_object_def Let_def add_property_def no_timestamps_def)

section \<open>Properties of persistence\<close>

lemma set_all_types: "set all_types = UNIV"
proof -
  have "t \<in> set all_types" for t by (cases t) (simp_all add: all_types_def)
  then show ?thesis by blast
qed

lemma set_sorted_types [simp]: "set (sorted_types T) = T"
  by (auto simp: sorted_types_def set_all_types)

lemma str2type_type2str [simp]: "str2type (type2str t) = Inr t"
  by (cases t) (simp_all add: str2type_def lower_def lower_char_def)

lemma add_types_type2str: "add_types (map type2str ts) A = Inr (A \<union> set ts)"
  by (induction ts arbitrary: A) auto

lemma by_type_type2str:
  "by_type (map (\<lambda>kv. (type2str (fst kv), snd kv)) kvs) m =
     Inr (fold (\<lambda>kv m'. m'(fst kv \<mapsto> snd kv)) kvs m)"
  by (induction kvs arbitrary: m) auto

lemma fold_items_general:
  "fold (\<lambda>kv m'. m'(fst kv \<mapsto> snd kv))
     (concat (map (\<lambda>t. case m t of None \<Rightarrow> [] | Some v \<Rightarrow> [(t, v)]) ts)) m0
   = (\<lambda>t. if t \<in> set ts then (case m t of None \<Rightarrow> m0 t | Some v \<Rightarrow> Some v) else m0 t)"
proof (induction ts arbitrary: m0)
  case Nil
  then show ?case by simp
next
  case (Cons t ts)
  let ?f = "\<lambda>kv m'. m'(fst kv \<mapsto> snd kv)"
  let ?g = "\<lambda>t. case m t of None \<Rightarrow> [] | Some v \<Rightarrow> [(t, v)]"
  have step: "fold ?f (concat (map ?g (t # ts))) m0 = fold ?f (concat (map ?g ts)) (fold ?f (?g t) m0)"
    by simp
  show ?case
  proof (cases "m t")
    case None
    then have "fold ?f (?g t) m0 = m0" by simp
    with step have "fold ?f (concat (map ?g (t # ts))) m0 = fold ?f (concat (map ?g ts)) m0"
      by simp
    also have "\<dots> = (\<lambda>t. if t \<in> set ts then (case m t of None \<Rightarrow> m0 t | Some v \<Rightarrow> Some v) else m0 t)"
      by (rule Cons.IH)
    also have "\<dots> = (\<lambda>u. if u \<in> set (t # ts) then (case m u of None \<Rightarrow> m0 u | Some v \<Rightarrow> Some v) else m0 u)"
      using None by (rule_tac ext) (simp split: option.splits)
    finally show ?thesis .
  next
    case (Some v)
    then have "fold ?f (?g t) m0 = m0(t \<mapsto> v)" by simp
    with step have "fold ?f (concat (map ?g (t # ts))) m0 = fold ?f (concat (map ?g ts)) (m0(t \<mapsto> v))"
      by simp
    also have "\<dots> = (\<lambda>u. if u \<in> set ts then (case m u of None \<Rightarrow> (m0(t \<mapsto> v)) u | Some w \<Rightarrow> Some w) else (m0(t \<mapsto> v)) u)"
      by (rule Cons.IH)
    also have "\<dots> = (\<lambda>u. if u \<in> set (t # ts) then (case m u of None \<Rightarrow> m0 u | Some v \<Rightarrow> Some v) else m0 u)"
      using Some by (rule_tac ext) (simp split: option.splits)
    finally show ?thesis .
  qed
qed

lemma fold_map_items: "fold (\<lambda>kv m'. m'(fst kv \<mapsto> snd kv)) (map_items m) Map.empty = m"
  unfolding map_items_def fold_items_general
  by (auto simp: set_all_types fun_eq_iff split: option.splits)

lemma type_keyed_roundtrip:
  "(case type_keyed m of None \<Rightarrow> Inr Map.empty | Some kvs \<Rightarrow> by_type kvs Map.empty) = Inr m"
proof (cases "map_items m = []")
  case True
  with fold_map_items[of m] have "m = Map.empty" by simp
  with True show ?thesis by (simp add: type_keyed_def)
next
  case False
  then show ?thesis by (simp add: type_keyed_def by_type_type2str fold_map_items)
qed

lemma update_fresh: "k \<notin> fst ` set al \<Longrightarrow> AList.update k v al = al @ [(k, v)]"
  by (induction al) auto

lemma from_dict_fields_to_dict:
  assumes "counts d0 = Map.empty" "node_values d0 = Map.empty" "vectorizers d0 = Map.empty"
  shows "\<exists>d'. from_dict_fields (rdata (to_dict (Node d ps its))) d0 = Inr d' \<and>
           counts d' = counts d \<and> type d' = type d0 \<and> required d' = required d0"
proof -
  have c: "(case type_keyed (counts d) of None \<Rightarrow> Inr (counts d0) | Some kvs \<Rightarrow> by_type kvs Map.empty)
           = Inr (counts d)"
    using type_keyed_roundtrip[of "counts d"] by (simp add: assms(1) split: option.splits)
  have v: "(case type_keyed (node_values d) of None \<Rightarrow> Inr (node_values d0) | Some kvs \<Rightarrow> by_type kvs Map.empty)
           = Inr (node_values d)"
    using type_keyed_roundtrip[of "node_values d"] by (simp add: assms(2) split: option.splits)
  have z: "(case type_keyed (vectorizers d) of None \<Rightarrow> Inr (vectorizers d0) | Some kvs \<Rightarrow> by_type kvs Map.empty)
           = Inr (vectorizers d)"
    using type_keyed_roundtrip[of "vectorizers d"] by (simp add: assms(3) split: option.splits)
  show ?thesis by (simp add: from_dict_fields_def c v z)
qed

lemma from_dict_to_dict_all:
  "(distinct_keys n \<longrightarrow> (\<forall>p ti. \<exists>n'. from_dict p ti (to_dict n) = Inr n' \<and> same_shape n n'))"
  "(list_all (\<lambda>kc. distinct_keys (snd kc)) ps \<longrightarrow> distinct (map fst ps) \<longrightarrow>
      (\<forall>p ti acc. fst ` set ps \<inter> fst ` set acc = {} \<longrightarrow>
         (\<exists>ps'. from_dict_props p ti (to_dict_props ps) acc = Inr (acc @ ps') \<and>
                 map fst ps' = map fst ps \<and> list_all2 same_shape (map snd ps) (map snd ps'))))"
  "(list_all distinct_keys its \<longrightarrow>
      (\<forall>p ti acc. \<exists>its'. from_dict_items p ti (to_dict_items its) acc = Inr (acc @ its') \<and>
                 list_all2 same_shape its its'))"
proof (induction n and ps and its rule: to_dict_to_dict_props_to_dict_items.induct)
  case (1 d ps its)
  show ?case
  proof (intro impI allI)
    fix p ti
    assume wf: "distinct_keys (Node d ps its)"
    let ?ti = "tuple_items d"
    have tys: "(case (if type d \<noteq> {} then Some (Inr (map type2str (sorted_types (type d)))) else None) of
                 None \<Rightarrow> Inr {}
               | Some (Inl s) \<Rightarrow> add_types [s] {}
               | Some (Inr ss) \<Rightarrow> add_types ss {}) = Inr (type d)"
      by (simp add: add_types_type2str)
    have wfs: "list_all (\<lambda>kc. distinct_keys (snd kc)) ps" "distinct (map fst ps)"
      "list_all distinct_keys its"
      using wf by simp_all
    have "\<exists>ps'. from_dict_props p ?ti (to_dict_props ps) [] = Inr ([] @ ps') \<and>
            map fst ps' = map fst ps \<and> list_all2 same_shape (map snd ps) (map snd ps')"
    proof (cases "ps = []")
      case True
      then show ?thesis by simp
    next
      case False
      show ?thesis by (rule "1.IH"(1)[rule_format, OF False]) (use wfs in simp_all)
    qed
    then obtain ps' where
      ps': "from_dict_props p ?ti (to_dict_props ps) [] = Inr ps'" "map fst ps' = map fst ps"
           "list_all2 same_shape (map snd ps) (map snd ps')"
      by auto
    have props: "(case (if ps \<noteq> [] then Some (to_dict_props ps) else None) of
                    None \<Rightarrow> Inr [] | Some kvs \<Rightarrow> from_dict_props p ?ti kvs []) = Inr ps'"
      using ps'(1) by (cases ps) auto
    have "\<exists>its'. from_dict_items p ?ti (to_dict_items its) [] = Inr ([] @ its') \<and>
            list_all2 same_shape its its'"
    proof (cases "its = []")
      case True
      then show ?thesis by simp
    next
      case False
      show ?thesis by (rule "1.IH"(2)[rule_format, OF False]) (use wfs in simp_all)
    qed
    then obtain its' where
      its': "from_dict_items p ?ti (to_dict_items its) [] = Inr its'" "list_all2 same_shape its its'"
      by auto
    have itms: "(case (if its \<noteq> [] then Some (Inr (to_dict_items its)) else None) of
                   None \<Rightarrow> Inr []
                 | Some (Inl it) \<Rightarrow> from_dict_items p ?ti [it] []
                 | Some (Inr l) \<Rightarrow> from_dict_items p ?ti l []) = Inr its'"
      using its'(1) by (cases its) auto
    let ?d0 = "(data (new_node p ?ti))\<lparr>type := type d, required := required d\<rparr>"
    from from_dict_fields_to_dict[of ?d0 d ps its] obtain d' where
      d': "from_dict_fields (rdata (to_dict (Node d ps its))) ?d0 = Inr d'"
          "counts d' = counts d" "type d' = type d" "required d' = required d"
      by (auto simp: new_node_def)
    have "from_dict p ti (to_dict (Node d ps its)) = Inr (Node d' ps' its')"
      using tys props itms d'(1) by (simp add: Let_def)
    moreover have "same_shape (Node d ps its) (Node d' ps' its')"
      using d'(2-4) ps'(2,3) its'(2) by (simp add: list_all2_lengthD)
    ultimately show "\<exists>n'. from_dict p ti (to_dict (Node d ps its)) = Inr n' \<and> same_shape (Node d ps its) n'"
      by blast
  qed
next
  case 2
  show ?case by simp
next
  case (3 name c ps)
  show ?case
  proof (intro impI allI)
    fix p ti and acc :: "(string \<times> node) list"
    assume wf: "list_all (\<lambda>kc. distinct_keys (snd kc)) ((name, c) # ps)"
      and dist: "distinct (map fst ((name, c) # ps))"
      and disj: "fst ` set ((name, c) # ps) \<inter> fst ` set acc = {}"
    have "\<exists>c'. from_dict (p @ [SStr name]) ti (to_dict c) = Inr c' \<and> same_shape c c'"
      by (rule "3.IH"(1)[rule_format]) (use wf in simp)
    then obtain c' where
      c': "from_dict (p @ [SStr name]) ti (to_dict c) = Inr c'" "same_shape c c'"
      by auto
    have fresh: "name \<notin> fst ` set acc" using disj by auto
    have disj': "fst ` set ps \<inter> fst ` set (acc @ [(name, c')]) = {}"
      using disj dist by auto
    have "\<exists>ps'. from_dict_props p ti (to_dict_props ps) (acc @ [(name, c')]) = Inr ((acc @ [(name, c')]) @ ps') \<and>
            map fst ps' = map fst ps \<and> list_all2 same_shape (map snd ps) (map snd ps')"
      by (rule "3.IH"(2)[rule_format]) (use wf dist disj' in simp_all)
    then obtain ps' where
      ps': "from_dict_props p ti (to_dict_props ps) (acc @ [(name, c')]) = Inr ((acc @ [(name, c')]) @ ps')"
           "map fst ps' = map fst ps" "list_all2 same_shape (map snd ps) (map snd ps')"
      by auto
    have "from_dict_props p ti (to_dict_props ((name, c) # ps)) acc = Inr (acc @ ((name, c') # ps'))"
      using c'(1) ps'(1) by (simp add: update_fresh[OF fresh])
    then show "\<exists>ps'. from_dict_props p ti (to_dict_props ((name, c) # ps)) acc = Inr (acc @ ps') \<and>
        map fst ps' = map fst ((name, c) # ps) \<and>
        list_all2 same_shape (map snd ((name, c) # ps)) (map snd ps')"
      using c'(2) ps'(2,3) by (intro exI[of _ "(name, c') # ps'"]) simp
  qed
next
  case 4
  show ?case by simp
next
  case (5 c cs)
  show ?case
  proof (intro impI allI)
    fix p ti and acc :: "node list"
    assume wf: "list_all distinct_keys (c # cs)"
    let ?p = "p @ (if ti then [SInt (length acc)] else [SStr ''any''])"
    have "\<exists>c'. from_dict ?p ti (to_dict c) = Inr c' \<and> same_shape c c'"
      by (rule "5.IH"(1)[rule_format]) (use wf in simp)
    then obtain c' where
      c': "from_dict ?p ti (to_dict c) = Inr c'" "same_shape c c'"
      by auto
    have "\<exists>cs'. from_dict_items p ti (to_dict_items cs) (acc @ [c']) = Inr ((acc @ [c']) @ cs') \<and>
            list_all2 same_shape cs cs'"
      by (rule "5.IH"(2)[rule_format]) (use wf in simp)
    then obtain cs' where
      cs': "from_dict_items p ti (to_dict_items cs) (acc @ [c']) = Inr ((acc @ [c']) @ cs')"
           "list_all2 same_shape cs cs'"
      by auto
    have "from_dict_items p ti (to_dict_items (c # cs)) acc = Inr (acc @ (c' # cs'))"
      using c'(1) cs'(1) by simp
    then show "\<exists>its'. from_dict_items p ti (to_dict_items (c # cs)) acc = Inr (acc @ its') \<and>
        list_all2 same_shape (c # cs) its'"
      using c'(2) cs'(2) by (intro exI[of _ "c' # cs'"]) simp
  qed
qed


lemma distinct_keys_iff:
  "distinct_keys n \<longleftrightarrow>
     distinct (map fst (properties n)) \<and> (\<forall>kc\<in>set (properties n). distinct_keys (snd kc)) \<and>
     (\<forall>c\<in>set (items n). distinct_keys c)"
  by (cases n) (simp add: list_all_iff)

lemma distinct_keys_new_node [simp]: "distinct_keys (new_node p ti)"
  by (simp add: new_node_def)

lemma set_update_subset: "set (AList.update k v al) \<subseteq> insert (k, v) (set al)"
  by (induction al) auto

lemma distinct_keys_update:
  assumes "distinct_keys n" "distinct_keys c"
  shows "distinct_keys (Node (data n) (AList.update k c (properties n)) (items n))"
proof -
  have "\<forall>kc\<in>set (AList.update k c (properties n)). distinct_keys (snd kc)"
    using assms set_update_subset[of k c "properties n"] by (auto simp: distinct_keys_iff[of n])
  then show ?thesis using assms by (simp add: list_all_iff distinct_keys_iff[of n] distinct_update)
qed

lemma distinct_keys_add_property: "distinct_keys n \<Longrightarrow> distinct_keys (add_property n name)"
  unfolding add_property_def by (rule distinct_keys_update) simp_all

lemma distinct_keys_add_item: "distinct_keys n \<Longrightarrow> distinct_keys (add_item n)"
  by (simp add: add_item_def distinct_keys_iff[of n] list_all_iff)

lemma distinct_keys_grow_items: "distinct_keys n \<Longrightarrow> distinct_keys (grow_items n len)"
proof (induction n len rule: grow_items.induct)
  case (1 n len)
  show ?case
  proof (cases "length (items n) < len")
    case True
    then have "grow_items n len = grow_items (add_item n) len" by (subst grow_items.simps) simp
    with "1.IH"[OF True] "1.prems" show ?thesis by (simp add: distinct_keys_add_item)
  next
    case False
    then have "grow_items n len = n" by (subst grow_items.simps) simp
    with "1.prems" show ?thesis by simp
  qed
qed

lemma distinct_keys_data_update:
  "distinct_keys (Node d' (properties n) (items n)) = distinct_keys n"
  by (cases n) simp

lemma distinct_keys_fold_add:
  "distinct_keys n \<Longrightarrow>
   distinct_keys (fold (\<lambda>key m. if key \<notin> fst ` set (properties m) then add_property m key else m) ks n)"
  by (induction ks arbitrary: n) (auto simp: distinct_keys_add_property)

lemma distinct_keys_Schema_extend_self:
  assumes "distinct_keys n"
  shows "distinct_keys (Schema_extend_self n d t)"
proof -
  define n1 where "n1 = Node ((data n)\<lparr>type := insert t (type (data n))\<rparr>) (properties n) (items n)"
  define n2 where
    "n2 = fold (\<lambda>key m. if key \<notin> fst ` set (properties m) then add_property m key else m) (doc_keys d) n1"
  have w1: "distinct_keys n1" using assms unfolding n1_def by (simp only: distinct_keys_data_update)
  have w2: "distinct_keys n2" unfolding n2_def using w1 by (rule distinct_keys_fold_add)
  have eq: "Schema_extend_self n d t =
     (if t = OBJECT then
        Node ((data n2)\<lparr>required :=
                  (case required (data n2) of
                     None \<Rightarrow> Some (set (doc_keys d))
                   | Some r \<Rightarrow> Some (r \<inter> set (doc_keys d)))\<rparr>)
           (properties n2) (items n2)
      else if t = ARRAY then
        (if tuple_items (data n1) then grow_items n1 (doc_len d)
         else if items n1 = [] then add_item n1
         else n1)
      else n1)"
    unfolding Schema_extend_self_def n1_def n2_def Let_def by (rule refl)
  show ?thesis
    unfolding eq using w1 w2
    by (simp add: distinct_keys_data_update distinct_keys_grow_items distinct_keys_add_item
        del: distinct_keys.simps)
qed

lemma distinct_keys_extend_self: "distinct_keys n \<Longrightarrow> distinct_keys (extend_self n d t)"
  by (simp add: extend_self_def Let_def distinct_keys_data_update distinct_keys_Schema_extend_self
      del: distinct_keys.simps)

lemma distinct_keys_extend_all:
  "distinct_keys n \<longrightarrow> (\<forall>n'. extend_doc V ts n d = Inr n' \<longrightarrow> distinct_keys n')"
  "distinct_keys n \<longrightarrow> (\<forall>n'. extend_props V ts n kvs = Inr n' \<longrightarrow> distinct_keys n')"
  "distinct_keys n \<longrightarrow> (\<forall>n'. extend_elems V ts n i ds = Inr n' \<longrightarrow> distinct_keys n')"
proof (induction V ts n d and V ts n kvs and V ts n i ds rule: extend_doc_extend_props_extend_elems.induct)
  case (1 V ts n d)
  show ?case
  proof (intro impI allI)
    fix n' assume wf: "distinct_keys n" and ex: "extend_doc V ts n d = Inr n'"
    from ex obtain t where t: "typeof V ts d = Inr t" by (auto split: sum.splits)
    let ?n1 = "extend_self n d t"
    have wf1: "distinct_keys ?n1" using wf by (rule distinct_keys_extend_self)
    show "distinct_keys n'"
    proof (cases d)
      case (DDict kvs)
      with t have tt: "t = OBJECT" by simp
      from ex t tt DDict have "extend_props V ts ?n1 kvs = Inr n'" by (simp add: Let_def)
      with "1.IH"(1)[OF t refl tt DDict] wf1 show ?thesis by blast
    next
      case (DList ds)
      with t have tt: "t = ARRAY" by simp
      from ex t tt DList have "extend_elems V ts ?n1 0 ds = Inr n'" by (simp add: Let_def)
      with "1.IH"(2)[OF t refl _ tt DList] tt wf1 show ?thesis by blast
    qed (use ex t wf1 in \<open>auto simp: Let_def split: if_splits\<close>)
  qed
next
  case (2 V ts n)
  show ?case by simp
next
  case (3 V ts n key v kvs)
  show ?case
  proof (intro impI allI)
    fix n' assume wf: "distinct_keys n" and ex: "extend_props V ts n ((key, v) # kvs) = Inr n'"
    from ex obtain c c' where c: "map_of (properties n) key = Some c"
      and c': "extend_doc V ts c v = Inr c'"
      and rest: "extend_props V ts (Node (data n) (AList.update key c' (properties n)) (items n)) kvs = Inr n'"
      by (auto split: option.splits sum.splits)
    from c have "(key, c) \<in> set (properties n)" by (rule map_of_SomeD)
    with wf have "distinct_keys c" by (auto simp: distinct_keys_iff[of n])
    with "3.IH"(1)[OF c] c' have "distinct_keys c'" by blast
    with wf have "distinct_keys (Node (data n) (AList.update key c' (properties n)) (items n))"
      by (rule distinct_keys_update)
    with "3.IH"(2)[OF c c'] rest show "distinct_keys n'" by blast
  qed
next
  case (4 V ts n i)
  show ?case by simp
next
  case (5 V ts n i item ds)
  show ?case
  proof (intro impI allI)
    fix n' assume wf: "distinct_keys n" and ex: "extend_elems V ts n i (item # ds) = Inr n'"
    define k where "k = (if tuple_items (data n) then i else 0)"
    from ex obtain c' where k: "k < length (items n)"
      and c': "extend_doc V ts (items n ! k) item = Inr c'"
      and rest: "extend_elems V ts (Node (data n) (properties n) ((items n)[k := c'])) (Suc i) ds = Inr n'"
      by (auto simp: k_def Let_def split: if_splits sum.splits)
    from wf k have "distinct_keys (items n ! k)" by (auto simp: distinct_keys_iff[of n])
    with "5.IH"(1)[OF k_def k] c' have wc: "distinct_keys c'" by blast
    have "set ((items n)[k := c']) \<subseteq> insert c' (set (items n))" by (rule set_update_subset_insert)
    with wf wc have "distinct_keys (Node (data n) (properties n) ((items n)[k := c']))"
      by (auto simp: distinct_keys_iff[of n] list_all_iff)
    with "5.IH"(2)[OF k_def k c'] rest show "distinct_keys n'" by blast
  qed
qed

lemma distinct_keys_extend:
  "distinct_keys n \<Longrightarrow> extend V ts n docs = Inr n' \<Longrightarrow> distinct_keys n'"
proof (induction docs arbitrary: n)
  case Nil
  then show ?case by simp
next
  case (Cons d docs)
  from Cons.prems(2) obtain n1 where
    n1: "extend_doc V ts n d = Inr n1" and rest: "extend V ts n1 docs = Inr n'"
    by (auto split: sum.splits)
  from distinct_keys_extend_all(1)[of n V ts d] Cons.prems(1) n1 have "distinct_keys n1" by blast
  from Cons.IH[OF this rest] show ?case .
qed

text \<open>
  Claim C3. For every tree that \<^verbatim>\<open>extend\<close> has built from a new root, rebuilding an
  object from \<^verbatim>\<open>to_dict\<close> succeeds and gives a tree with the same type set, counts,
  required set, property names and number of items at every node.
\<close>

theorem from_dict_to_dict_roundtrip:
  assumes "extend V ts (new_node p0 ti0) docs = Inr n"
  shows "\<exists>n'. from_dict p ti (to_dict n) = Inr n' \<and> same_shape n n'"
proof -
  have "distinct_keys n" using distinct_keys_extend[OF _ assms] by simp
  with from_dict_to_dict_all(1)[of n] show ?thesis by blast
qed


theorem from_dict_to_dict_roundtrip_witness:
  "extend 3 no_timestamps (new_node [SStr ''root''] False) [DDict [(''a'', DInt 1)]] = Inr learned_a \<and>
   (case from_dict [SStr ''root''] False (to_dict learned_a) of
      Inl e \<Rightarrow> False
    | Inr n' \<Rightarrow> same_shape learned_a n')"
proof -
  have e: "extend 3 no_timestamps (new_node [SStr ''root''] False) [DDict [(''a'', DInt 1)]] = Inr learned_a"
    by (simp add: extend_self_def Schema_extend_self_def new_node_def Let_def add_property_def
        no_timestamps_def learned_a_def)
  from from_dict_to_dict_roundtrip[OF e, of "[SStr ''root'']" False] e show ?thesis by auto
qed

section \<open>Properties of pruning\<close>

lemma node_collapse [simp]: "Node (data n) (properties n) (items n) = n"
  by (cases n) simp

lemma prunable_iff:
  "prunable n \<longleftrightarrow>
     list_all seg_is_str (path (data n)) \<and> type (data n) \<noteq> {} \<and>
     (\<forall>t\<in>type (data n). \<exists>c. counts (data n) t = Some c \<and> 0 \<le> c) \<and>
     distinct (map fst (properties n)) \<and> (\<forall>kc\<in>set (properties n). prunable (snd kc)) \<and>
     (\<forall>c\<in>set (items n). prunable c)"
  by (cases n) (auto simp: list_all_iff split: option.splits)

lemma prune_types_noop:
  assumes "\<forall>t\<in>set ts. \<exists>c. counts (data n) t = Some c \<and> 0 \<le> c"
  shows "prune_types pth 0 ts (paths, n) = Inr (paths, n)"
  using assms by (induction ts) auto

lemma prune_self_noop:
  assumes "prunable n"
  shows "prune_self 0 n = Inr ([], n)"
proof -
  from assms obtain pth where p: "join_path (path (data n)) = Inr pth"
    by (auto simp: prunable_iff[of n] join_path_def)
  have "prune_types pth 0 (sorted_types (type (data n))) ([], n) = Inr ([], n)"
    by (rule prune_types_noop) (use assms in \<open>auto simp: prunable_iff[of n]\<close>)
  with p assms show ?thesis by (simp add: prune_self_def prunable_iff[of n])
qed

lemma prune_noop_all:
  "pats = [] \<longrightarrow> mf = MInt 0 \<longrightarrow> prunable n \<longrightarrow> prune fs S pats mf n = Inr ([], n)"
  "pats = [] \<longrightarrow> m = 0 \<longrightarrow> prunable n \<longrightarrow> prune_rec fs S pats m n = Inr ([], n)"
  "pats = [] \<longrightarrow> m = 0 \<longrightarrow> (\<forall>kc\<in>set kcs. map_of (properties n) (fst kc) = Some (snd kc) \<and> prunable (snd kc)) \<longrightarrow>
     prune_props fs S pats m n kcs = Inr ([], n)"
  "pats = [] \<longrightarrow> m = 0 \<longrightarrow> (\<forall>c\<in>set cs. prunable c) \<longrightarrow> prune_items fs S pats m cs = Inr ([], cs)"
proof (induction fs S pats mf n and fs S pats m n and fs S pats m n kcs and fs S pats m cs
    rule: prune_prune_rec_prune_props_prune_items.induct)
  case (1 fscale search patterns mf n)
  then show ?case by simp
next
  case (2 fscale search patterns m n)
  show ?case
  proof (intro impI)
    assume pats: "patterns = []" and m: "m = 0" and wf: "prunable n"
    have self: "prune_self m n = Inr ([], n)" using prune_self_noop[OF wf] m by simp
    have "\<forall>kc\<in>set (sorted_properties n). map_of (properties n) (fst kc) = Some (snd kc) \<and> prunable (snd kc)"
      using wf by (auto simp: sorted_properties_def prunable_iff[of n])
    with "2.IH"(1)[OF self refl] pats m
    have props: "prune_props fscale search patterns m n (sorted_properties n) = Inr ([], n)" by simp
    have "\<forall>c\<in>set (rev (items n)). prunable c" using wf by (auto simp: prunable_iff[of n])
    with "2.IH"(2)[OF self refl props refl] pats m
    have itms: "prune_items fscale search patterns m (rev (items n)) = Inr ([], rev (items n))" by simp
    show "prune_rec fscale search patterns m n = Inr ([], n)"
      using self props itms by simp
  qed
next
  case (3 fscale search patterns m n)
  then show ?case by simp
next
  case (4 fscale search patterns m n name c kcs)
  show ?case
  proof (intro impI)
    assume pats: "patterns = []" and m: "m = 0"
      and all: "\<forall>kc\<in>set ((name, c) # kcs). map_of (properties n) (fst kc) = Some (snd kc) \<and> prunable (snd kc)"
    from all have look: "map_of (properties n) name = Some c" and wc: "prunable c" by auto
    from wc obtain pth where p: "join_path (path (data c)) = Inr pth"
      by (auto simp: prunable_iff[of c] join_path_def)
    have nm: "\<not> hasmatch search pth patterns" using pats by simp
    from "4.IH"(1)[OF p nm] pats wc m
    have pc: "prune fscale search patterns (MInt m) c = Inr ([], c)" by simp
    have ty: "type (data c) \<noteq> {}" using wc by (simp add: prunable_iff[of c])
    have step: "(if hasmatch search pth patterns then Inr ([pth], c, True)
            else case prune fscale search patterns (MInt m) c of
                   Inl e \<Rightarrow> Inl e
                 | Inr (ps, c') \<Rightarrow> Inr (ps, c', type (data c') = {})) = Inr ([], c, False)"
      using nm pc ty by simp
    have upd: "(if False then (case required (data n) of
                           None \<Rightarrow> Inl TypeError
                         | Some r \<Rightarrow>
                             Inr (Node ((data n)\<lparr>required := Some (r - {name})\<rparr>)
                                    (AList.delete name (properties n)) (items n)))
                      else Inr (Node (data n) (AList.update name c (properties n)) (items n))) = Inr n"
      using look by (simp add: update_triv)
    from "4.IH"(2)[OF p step refl refl upd] pats m all
    have rest: "prune_props fscale search patterns m n kcs = Inr ([], n)" by simp
    show "prune_props fscale search patterns m n ((name, c) # kcs) = Inr ([], n)"
      using p nm pc ty look rest by (simp add: update_triv)
  qed
next
  case (5 fscale search patterns m)
  then show ?case by simp
next
  case (6 fscale search patterns m c cs)
  show ?case
  proof (intro impI)
    assume pats: "patterns = []" and m: "m = 0" and all: "\<forall>c\<in>set (c # cs). prunable c"
    from all have wc: "prunable c" by simp
    from wc obtain pth where p: "join_path (path (data c)) = Inr pth"
      by (auto simp: prunable_iff[of c] join_path_def)
    have nm: "\<not> hasmatch search pth patterns" using pats by simp
    from "6.IH"(1)[OF p nm] pats wc m
    have pc: "prune fscale search patterns (MInt m) c = Inr ([], c)" by simp
    have ty: "type (data c) \<noteq> {}" using wc by (simp add: prunable_iff[of c])
    have step: "(if hasmatch search pth patterns then Inr ([pth], c, True)
            else case prune fscale search patterns (MInt m) c of
                   Inl e \<Rightarrow> Inl e
                 | Inr (ps, c') \<Rightarrow> Inr (ps, c', type (data c') = {})) = Inr ([], c, False)"
      using nm pc ty by simp
    from "6.IH"(2)[OF p step refl refl] pats m all
    have rest: "prune_items fscale search patterns m cs = Inr ([], cs)" by simp
    show "prune_items fscale search patterns m (c # cs) = Inr ([], c # cs)"
      using p nm pc ty rest by simp
  qed
qed

text \<open>
  Claim C7, as amended. On a tree in which every node has a path made of strings, a
  non-empty type set with a non-negative count for each of its types and no property
  name twice, \<^verbatim>\<open>prune\<close> with no pattern and minimum frequency 0 returns the empty
  list and leaves the tree as it is.
\<close>

theorem prune_nothing_noop:
  assumes "prunable n"
  shows "prune fscale search [] (MInt 0) n = Inr ([], n)"
  using prune_noop_all(1)[of "[]" "MInt 0" n fscale search] assms by simp

theorem prune_nothing_noop_witness:
  "prunable learned_a \<and>
   prune exact_scale never_matches [] (MInt 0) learned_a = Inr ([], learned_a)"
proof -
  have w: "prunable learned_a"
    by (simp add: learned_a_def sorted_types_def all_types_def)
  from prune_nothing_noop[OF w] w show ?thesis by simp
qed

text \<open>
  The claim as stated, for every schema node, fails on a tree that \<^verbatim>\<open>extend\<close> builds:
  after the empty array \<^verbatim>\<open>[]\<close> the shared item child exists and has no type, so
  pruning with no pattern and threshold 0 records its path and drops it.
\<close>

theorem prune_nothing_counterexample:
  "extend 3 no_timestamps (new_node [SStr ''root''] False) [DList []] = Inr learned_empty_array \<and>
   prune exact_scale never_matches [] (MInt 0) learned_empty_array =
     Inr ([''root:any''], Node (data learned_empty_array) [] [])"
  by (simp add: extend_self_def Schema_extend_self_def new_node_def Let_def add_item_def
      learned_empty_array_def prune_self_def join_path_def sorted_types_def all_types_def
      sorted_properties_def)

text \<open>
  In tuple mode the path of an item ends with an integer, and joining it raises: pruning a
  tuple-mode tree that has an item never returns a list.
\<close>

lemma prune_tuple_items_raises:
  "extend 3 no_timestamps (new_node [SStr ''root''] True) [DList [DInt 1]] = Inr learned_tuple \<and>
   prune exact_scale never_matches [] (MInt 0) learned_tuple = Inl TypeError"
  by (simp add: extend_self_def Schema_extend_self_def new_node_def Let_def add_item_def
      grow_items.simps learned_tuple_def prune_self_def join_path_def sorted_types_def
      all_types_def sorted_properties_def)

lemma prune_items_steps:
  "prune_items fs S pats m cs = Inr (paths, kept) \<Longrightarrow>
   \<exists>rs. list_all2 (\<lambda>c r. prune_child_spec fs S pats m c = Inr r) cs rs \<and>
        paths = concat (map fst rs) \<and> kept = List.map_filter snd rs"
proof (induction cs arbitrary: paths kept)
  case Nil
  then show ?case by simp
next
  case (Cons c cs)
  obtain pth where p: "join_path (path (data c)) = Inr pth"
    using Cons.prems by (cases "join_path (path (data c))") auto
  define stp where "stp = (if hasmatch S pth pats then Inr ([pth], c, True)
              else case prune fs S pats (MInt m) c of
                     Inl e \<Rightarrow> Inl e
                   | Inr (ps, c') \<Rightarrow> Inr (ps, c', type (data c') = {}))"
  have "prune_items fs S pats m (c # cs) = (case stp of
           Inl e \<Rightarrow> Inl e
         | Inr (ps, c', dropped) \<Rightarrow>
             (case prune_items fs S pats m cs of
                Inl e \<Rightarrow> Inl e
              | Inr (rest, kept) \<Rightarrow> Inr (ps @ rest, if dropped then kept else c' # kept)))"
    unfolding stp_def by (simp only: prune_items.simps p sum.case)
  with Cons.prems have e: "(case stp of
           Inl e \<Rightarrow> Inl e
         | Inr (ps, c', dropped) \<Rightarrow>
             (case prune_items fs S pats m cs of
                Inl e \<Rightarrow> Inl e
              | Inr (rest, kept) \<Rightarrow> Inr (ps @ rest, if dropped then kept else c' # kept))) = Inr (paths, kept)"
    by simp
  then obtain ps c' dropped where st0: "stp = Inr (ps, c', dropped)"
    by (cases stp) auto
  from e st0 obtain rest kept' where
    r: "prune_items fs S pats m cs = Inr (rest, kept')"
    and res: "paths = ps @ rest" "kept = (if dropped then kept' else c' # kept')"
    by (auto split: sum.splits)
  note st = st0[unfolded stp_def]
  from Cons.IH[OF r] obtain rs where
    rs: "list_all2 (\<lambda>c r. prune_child_spec fs S pats m c = Inr r) cs rs"
        "rest = concat (map fst rs)" "kept' = List.map_filter snd rs"
    by blast
  have c: "prune_child_spec fs S pats m c = Inr (ps, if dropped then None else Some c')"
    using p st by (auto simp: prune_child_spec_def simp del: prune.simps split: if_splits sum.splits prod.splits)
  show ?case
    using c rs res
    by (intro exI[of _ "(ps, if dropped then None else Some c') # rs"])
       (simp add: List.map_filter_simps)
qed

lemma prune_props_steps:
  "prune_props fs S pats m n kcs = Inr (paths, n') \<Longrightarrow>
   \<exists>rs. list_all2 (\<lambda>kc r. prune_child_spec fs S pats m (snd kc) = Inr r) kcs rs \<and>
        paths = concat (map fst rs) \<and>
        properties n' = fold (\<lambda>(kc, r). apply_child kc r) (zip kcs rs) (properties n) \<and>
        items n' = items n"
proof (induction kcs arbitrary: paths n)
  case Nil
  then show ?case by simp
next
  case (Cons kc kcs)
  obtain name c where kc: "kc = (name, c)" by (cases kc)
  obtain pth where p: "join_path (path (data c)) = Inr pth"
    using Cons.prems unfolding kc by (cases "join_path (path (data c))") auto
  define stp where "stp = (if hasmatch S pth pats then Inr ([pth], c, True)
              else case prune fs S pats (MInt m) c of
                     Inl e \<Rightarrow> Inl e
                   | Inr (ps, c') \<Rightarrow> Inr (ps, c', type (data c') = {}))"
  define upd where "upd = (\<lambda>c' dropped. if dropped then
                (case required (data n) of
                   None \<Rightarrow> Inl TypeError
                 | Some r \<Rightarrow>
                     Inr (Node ((data n)\<lparr>required := Some (r - {name})\<rparr>)
                            (AList.delete name (properties n)) (items n)))
              else Inr (Node (data n) (AList.update name c' (properties n)) (items n)))"
  have "prune_props fs S pats m n ((name, c) # kcs) = (case stp of
           Inl e \<Rightarrow> Inl e
         | Inr (ps, c', dropped) \<Rightarrow>
             (case upd c' dropped of
                Inl e \<Rightarrow> Inl e
              | Inr n1 \<Rightarrow>
                  (case prune_props fs S pats m n1 kcs of
                     Inl e \<Rightarrow> Inl e
                   | Inr (rest, n'') \<Rightarrow> Inr (ps @ rest, n''))))"
    unfolding stp_def upd_def by (simp only: prune_props.simps p sum.case)
  with Cons.prems have e: "(case stp of
           Inl e \<Rightarrow> Inl e
         | Inr (ps, c', dropped) \<Rightarrow>
             (case upd c' dropped of
                Inl e \<Rightarrow> Inl e
              | Inr n1 \<Rightarrow>
                  (case prune_props fs S pats m n1 kcs of
                     Inl e \<Rightarrow> Inl e
                   | Inr (rest, n'') \<Rightarrow> Inr (ps @ rest, n'')))) = Inr (paths, n')"
    by (simp only: kc)
  then obtain ps c' dropped where st0: "stp = Inr (ps, c', dropped)"
    by (cases stp) auto
  from e st0 obtain n1 where up0: "upd c' dropped = Inr n1"
    by (cases "upd c' dropped") auto
  from e st0 up0 obtain rest where
    r: "prune_props fs S pats m n1 kcs = Inr (rest, n')"
    and res: "paths = ps @ rest"
    by (auto split: sum.splits)
  note st = st0[unfolded stp_def]
  note up = up0[unfolded upd_def]
  from Cons.IH[OF r] obtain rs where
    rs: "list_all2 (\<lambda>kc r. prune_child_spec fs S pats m (snd kc) = Inr r) kcs rs"
        "rest = concat (map fst rs)"
        "properties n' = fold (\<lambda>(kc, r). apply_child kc r) (zip kcs rs) (properties n1)"
        "items n' = items n1"
    by blast
  let ?r = "(ps, if dropped then None else Some c')"
  have c: "prune_child_spec fs S pats m c = Inr ?r"
    using p st by (auto simp: prune_child_spec_def simp del: prune.simps split: if_splits sum.splits prod.splits)
  have n1: "properties n1 = apply_child kc ?r (properties n)" "items n1 = items n"
    using up by (auto simp: apply_child_def kc split: if_splits option.splits)
  show ?case
    using c rs res n1 by (intro exI[of _ "?r # rs"]) (simp add: kc)
qed

text \<open>
  Claim C8, as amended. When \<^verbatim>\<open>_prune\<close> returns, its list is the paths of the self
  step, then those of the properties taken in lexicographic order, then those of the
  items taken in descending index order (the last item first); each child is handled by
  the child step: dropped and recorded without recursion when its path matches a pattern,
  pruned otherwise and dropped only if its type set is empty afterwards. The items kept
  stay in their original order.
\<close>

theorem prune_child_order:
  assumes "prune_rec fscale search patterns m n = Inr (paths, n')"
  shows "\<exists>sp n1 qs rs.
           prune_self m n = Inr (sp, n1) \<and>
           list_all2 (\<lambda>kc r. prune_child_spec fscale search patterns m (snd kc) = Inr r)
             (sorted_properties n1) qs \<and>
           list_all2 (\<lambda>c r. prune_child_spec fscale search patterns m c = Inr r)
             (rev (items n1)) rs \<and>
           paths = sp @ concat (map fst qs) @ concat (map fst rs) \<and>
           properties n' = fold (\<lambda>(kc, r). apply_child kc r) (zip (sorted_properties n1) qs) (properties n1) \<and>
           items n' = rev (List.map_filter snd rs)"
proof -
  from assms obtain sp n1 pp n2 ip kept where
    s: "prune_self m n = Inr (sp, n1)"
    and pr: "prune_props fscale search patterns m n1 (sorted_properties n1) = Inr (pp, n2)"
    and it: "prune_items fscale search patterns m (rev (items n1)) = Inr (ip, kept)"
    and res: "paths = sp @ pp @ ip" "n' = Node (data n2) (properties n2) (rev kept)"
    by (auto split: sum.splits prod.splits)
  from prune_props_steps[OF pr] obtain qs where
    qs: "list_all2 (\<lambda>kc r. prune_child_spec fscale search patterns m (snd kc) = Inr r) (sorted_properties n1) qs"
        "pp = concat (map fst qs)"
        "properties n2 = fold (\<lambda>(kc, r). apply_child kc r) (zip (sorted_properties n1) qs) (properties n1)"
    by blast
  from prune_items_steps[OF it] obtain rs where
    rs: "list_all2 (\<lambda>c r. prune_child_spec fscale search patterns m c = Inr r) (rev (items n1)) rs"
        "ip = concat (map fst rs)" "kept = List.map_filter snd rs"
    by blast
  show ?thesis using s qs rs res by auto
qed

theorem prune_child_order_witness:
  "prune_rec exact_scale never_matches [] 2 two_items =
     Inr ([''root:any:y'', ''root:any:x''],
          Node (data two_items) []
            [Node (data (shared_item ''x'')) [] [], Node (data (shared_item ''y'')) [] []]) \<and>
   (\<exists>sp n1 qs rs.
      prune_self 2 two_items = Inr (sp, n1) \<and>
      list_all2 (\<lambda>kc r. prune_child_spec exact_scale never_matches [] 2 (snd kc) = Inr r)
        (sorted_properties n1) qs \<and>
      list_all2 (\<lambda>c r. prune_child_spec exact_scale never_matches [] 2 c = Inr r)
        (rev (items n1)) rs \<and>
      [''root:any:y'', ''root:any:x''] = sp @ concat (map fst qs) @ concat (map fst rs))"
proof -
  have e: "prune_rec exact_scale never_matches [] 2 two_items =
     Inr ([''root:any:y'', ''root:any:x''],
          Node (data two_items) []
            [Node (data (shared_item ''x'')) [] [], Node (data (shared_item ''y'')) [] []])"
    by (simp add: two_items_def shared_item_def prune_self_def join_path_def
        sorted_types_def all_types_def sorted_properties_def)
  from prune_child_order[OF e] obtain sp n1 qs rs where
    "prune_self 2 two_items = Inr (sp, n1)"
    "list_all2 (\<lambda>kc r. prune_child_spec exact_scale never_matches [] 2 (snd kc) = Inr r)
        (sorted_properties n1) qs"
    "list_all2 (\<lambda>c r. prune_child_spec exact_scale never_matches [] 2 c = Inr r)
        (rev (items n1)) rs"
    "[''root:any:y'', ''root:any:x''] = sp @ concat (map fst qs) @ concat (map fst rs)"
    by blast
  with e show ?thesis by blast
qed

text \<open>
  The claim as stated has the items visited in ascending index order. On the node with
  the two items \<open>x\<close> (index 0) and \<open>y\<close> (index 1), the path dropped under item 1 is
  recorded before the path dropped under item 0.
\<close>

theorem prune_child_order_counterexample:
  "from_dict [SStr ''root''] False (to_dict two_items) = Inr two_items \<and>
   items two_items = [shared_item ''x'', shared_item ''y''] \<and>
   prune exact_scale never_matches [] (MInt 2) (shared_item ''x'') =
     Inr ([''root:any:x''], Node (data (shared_item ''x'')) [] []) \<and>
   prune exact_scale never_matches [] (MInt 2) (shared_item ''y'') =
     Inr ([''root:any:y''], Node (data (shared_item ''y'')) [] []) \<and>
   prune exact_scale never_matches [] (MInt 2) two_items =
     Inr ([''root:any:y'', ''root:any:x''],
          Node (data two_items) []
            [Node (data (shared_item ''x'')) [] [], Node (data (shared_item ''y'')) [] []])"
  by (simp add: two_items_def shared_item_def new_node_def Let_def from_dict_fields_def
      type_keyed_def map_items_def all_types_def sorted_types_def str2type_def lower_def
      lower_char_def prune_self_def join_path_def sorted_properties_def)

lemma prune_int_independent:
  "(\<forall>k. mf = MInt k \<longrightarrow> prune fs S pats mf n = prune fs' S pats mf n)"
  "prune_rec fs S pats m n = prune_rec fs' S pats m n"
  "prune_props fs S pats m n kcs = prune_props fs' S pats m n kcs"
  "prune_items fs S pats m cs = prune_items fs' S pats m cs"
proof (induction fs S pats mf n and fs S pats m n and fs S pats m n kcs and fs S pats m cs
    rule: prune_prune_rec_prune_props_prune_items.induct)
  case (1 fscale search patterns mf n)
  then show ?case by (auto simp del: prune_rec.simps)
next
  case (2 fscale search patterns m n)
  show ?case
  proof (cases "prune_self m n")
    case (Inl e)
    then show ?thesis by simp
  next
    case (Inr r)
    obtain sp n1 where r: "r = (sp, n1)" by (cases r)
    note s = Inr[unfolded r]
    have pe: "prune_props fscale search patterns m n1 (sorted_properties n1)
               = prune_props fs' search patterns m n1 (sorted_properties n1)"
      by (rule "2.IH"(1)[OF s refl])
    show ?thesis
    proof (cases "prune_props fscale search patterns m n1 (sorted_properties n1)")
      case (Inl e)
      with pe have "prune_props fs' search patterns m n1 (sorted_properties n1) = Inl e"
        by simp
      with s Inl show ?thesis by simp
    next
      case (Inr q)
      obtain pp n2 where q: "q = (pp, n2)" by (cases q)
      note pr = Inr[unfolded q]
      have ie: "prune_items fscale search patterns m (rev (items n1))
                 = prune_items fs' search patterns m (rev (items n1))"
        by (rule "2.IH"(2)[OF s refl pr refl])
      from pe pr have pr': "prune_props fs' search patterns m n1 (sorted_properties n1) = Inr (pp, n2)"
        by simp
      from s pr pr' ie show ?thesis by simp
    qed
  qed
next
  case (3 fscale search patterns m n)
  show ?case by simp
next
  case (4 fscale search patterns m n name c kcs)
  show ?case
  proof (cases "join_path (path (data c))")
    case (Inl e)
    then show ?thesis by simp
  next
    case (Inr pth)
    define stp where "stp = (\<lambda>f. if hasmatch search pth patterns then Inr ([pth], c, True)
              else case prune f search patterns (MInt m) c of
                     Inl e \<Rightarrow> Inl e
                   | Inr (ps, c') \<Rightarrow> Inr (ps, c', type (data c') = {}))"
    define upd where "upd = (\<lambda>c' dropped. if dropped then
                (case required (data n) of
                   None \<Rightarrow> Inl TypeError
                 | Some r \<Rightarrow>
                     Inr (Node ((data n)\<lparr>required := Some (r - {name})\<rparr>)
                            (AList.delete name (properties n)) (items n)))
              else Inr (Node (data n) (AList.update name c' (properties n)) (items n)))"
    have unf: "prune_props f search patterns m n ((name, c) # kcs) = (case stp f of
           Inl e \<Rightarrow> Inl e
         | Inr (ps, c', dropped) \<Rightarrow>
             (case upd c' dropped of
                Inl e \<Rightarrow> Inl e
              | Inr n1 \<Rightarrow>
                  (case prune_props f search patterns m n1 kcs of
                     Inl e \<Rightarrow> Inl e
                   | Inr (rest, n'') \<Rightarrow> Inr (ps @ rest, n''))))" for f
      unfolding stp_def upd_def by (simp only: prune_props.simps Inr sum.case)
    have se: "stp fscale = stp fs'"
    proof (cases "hasmatch search pth patterns")
      case True
      then show ?thesis by (simp add: stp_def)
    next
      case False
      from "4.IH"(1)[OF Inr False]
      have "prune fscale search patterns (MInt m) c = prune fs' search patterns (MInt m) c" by blast
      then show ?thesis unfolding stp_def by (simp only:)
    qed
    show ?thesis
    proof (cases "stp fscale")
      case (Inl e)
      then have "stp fs' = Inl e" using se by simp
      with Inl show ?thesis unfolding unf by (simp only: sum.case)
    next
      case st: (Inr r)
      obtain ps c' dropped where r: "r = (ps, c', dropped)" by (cases r)
      have st': "stp fs' = Inr (ps, c', dropped)" using st se r by simp
      show ?thesis
      proof (cases "upd c' dropped")
        case (Inl e)
        show ?thesis unfolding unf by (simp only: st[unfolded r] st' Inl sum.case prod.case)
      next
        case up: (Inr n1)
        have eq: "prune_props fscale search patterns m n1 kcs = prune_props fs' search patterns m n1 kcs"
          by (rule "4.IH"(2)[OF Inr st[unfolded stp_def r] refl refl up[unfolded upd_def]])
        show ?thesis unfolding unf by (simp only: st[unfolded r] st' up eq sum.case prod.case)
      qed
    qed
  qed
next
  case (5 fscale search patterns m)
  show ?case by simp
next
  case (6 fscale search patterns m c cs)
  show ?case
  proof (cases "join_path (path (data c))")
    case (Inl e)
    then show ?thesis by simp
  next
    case (Inr pth)
    define stp where "stp = (\<lambda>f. if hasmatch search pth patterns then Inr ([pth], c, True)
              else case prune f search patterns (MInt m) c of
                     Inl e \<Rightarrow> Inl e
                   | Inr (ps, c') \<Rightarrow> Inr (ps, c', type (data c') = {}))"
    have unf: "prune_items f search patterns m (c # cs) = (case stp f of
           Inl e \<Rightarrow> Inl e
         | Inr (ps, c', dropped) \<Rightarrow>
             (case prune_items f search patterns m cs of
                Inl e \<Rightarrow> Inl e
              | Inr (rest, kept) \<Rightarrow> Inr (ps @ rest, if dropped then kept else c' # kept)))" for f
      unfolding stp_def by (simp only: prune_items.simps Inr sum.case)
    have se: "stp fscale = stp fs'"
    proof (cases "hasmatch search pth patterns")
      case True
      then show ?thesis by (simp add: stp_def)
    next
      case False
      from "6.IH"(1)[OF Inr False]
      have "prune fscale search patterns (MInt m) c = prune fs' search patterns (MInt m) c" by blast
      then show ?thesis unfolding stp_def by (simp only:)
    qed
    show ?thesis
    proof (cases "stp fscale")
      case (Inl e)
      then have "stp fs' = Inl e" using se by simp
      with Inl show ?thesis unfolding unf by (simp only: sum.case)
    next
      case st: (Inr r)
      obtain ps c' dropped where r: "r = (ps, c', dropped)" by (cases r)
      have st': "stp fs' = Inr (ps, c', dropped)" using st se r by simp
      have eq: "prune_items fscale search patterns m cs = prune_items fs' search patterns m cs"
        by (rule "6.IH"(2)[OF Inr st[unfolded stp_def r] refl refl])
      show ?thesis unfolding unf by (simp only: st[unfolded r] st' eq sum.case prod.case)
    qed
  qed
qed

text \<open>
  Claim C5, as amended. A float \<^verbatim>\<open>min_f\<close> is converted to an absolute count once, at
  the node on which \<^verbatim>\<open>prune\<close> is invoked, from that node's own sum of counts; the
  whole subtree is then pruned with that integer, and no conversion takes place below
  (whatever the conversion function would answer there).
\<close>

theorem prune_float_converted_once:
  "prune fscale search patterns (MFloat f) n =
     prune fscale' search patterns (MInt (fscale f (sum_counts n))) n"
proof -
  have "prune fscale search patterns (MFloat f) n =
          prune fscale search patterns (MInt (fscale f (sum_counts n))) n"
    by simp
  also have "\<dots> = prune fscale' search patterns (MInt (fscale f (sum_counts n))) n"
    using prune_int_independent(1)[of "MInt (fscale f (sum_counts n))" fscale search patterns n fscale']
    by blast
  finally show ?thesis .
qed

text \<open>
  The claim as stated has every descendant's threshold recomputed from the descendant's
  own total. With \<^verbatim>\<open>min_f = 0.5\<close> the root (total 4) gets the threshold 2 and its child
  \<^verbatim>\<open>a\<close> (total 1, whose own threshold would be 0) is dropped for its count 1 < 2;
  pruned on its own with the same float, the child is kept.
\<close>

theorem prune_float_counterexample:
  "extend 3 no_timestamps (new_node [SStr ''root''] False)
     [DDict [(''a'', DStr ''x'')], DDict [], DDict [], DDict []] = Inr sparse_root \<and>
   prune exact_scale never_matches [] (MFloat (1 / 2)) sparse_root =
     Inr ([''root:a''], Node (data sparse_root) [] []) \<and>
   exact_scale (1 / 2) (sum_counts sparse_root) = 2 \<and>
   exact_scale (1 / 2) (sum_counts sparse_child) = 0 \<and>
   counts (data sparse_child) STRING = Some 1 \<and>
   prune exact_scale never_matches [] (MFloat (1 / 2)) sparse_child = Inr ([], sparse_child)"
proof -
  have half: "\<lfloor>1 / 2 :: rat\<rfloor> = 0"
    using floor_divide_of_int_eq[of 1 2, where ?'a = rat] by simp
  have built: "extend 3 no_timestamps (new_node [SStr ''root''] False)
     [DDict [(''a'', DStr ''x'')], DDict [], DDict [], DDict []] = Inr sparse_root"
    by (simp add: extend_self_def Schema_extend_self_def new_node_def Let_def add_property_def
        no_timestamps_def sparse_root_def sparse_child_def)
  have pruned: "prune exact_scale never_matches [] (MFloat (1 / 2)) sparse_root =
       Inr ([''root:a''], Node (data sparse_root) [] []) \<and>
     exact_scale (1 / 2) (sum_counts sparse_root) = 2 \<and>
     exact_scale (1 / 2) (sum_counts sparse_child) = 0 \<and>
     counts (data sparse_child) STRING = Some 1 \<and>
     prune exact_scale never_matches [] (MFloat (1 / 2)) sparse_child = Inr ([], sparse_child)"
    by (simp add: sparse_root_def sparse_child_def prune_self_def join_path_def exact_scale_def
        sum_counts_def map_items_def sorted_types_def all_types_def sorted_properties_def Let_def
        half)
  from conjI[OF built pruned] show ?thesis .
qed

section \<open>Properties of fitting\<close>

lemma feature_names_prop_children:
  "feature_names_prop n = feature_names (data n) @ concat (map feature_names_prop (child_nodes n))"
  by (subst feature_names_prop.simps) (simp add: child_nodes_def)

lemma concat_map_over_concat:
  "concat (map f (concat xss)) = concat (map (\<lambda>xs. concat (map f xs)) xss)"
  by (induction xss) auto

lemma feature_names_prop_flat:
  "feature_names_prop n = concat (map (\<lambda>m. feature_names (data m)) (all_nodes n))"
proof (induction n rule: all_nodes.induct)
  case (1 n)
  have "concat (map feature_names_prop (child_nodes n)) =
        concat (map (\<lambda>c. concat (map (\<lambda>m. feature_names (data m)) (all_nodes c))) (child_nodes n))"
    using "1.IH" by (auto intro!: arg_cong[of _ _ concat])
  also have "\<dots> = concat (map (\<lambda>m. feature_names (data m)) (concat (map all_nodes (child_nodes n))))"
    by (simp add: concat_map_over_concat comp_def)
  finally show ?case
    by (subst feature_names_prop_children, subst all_nodes.simps) simp
qed


lemma starts_at_append:
  "starts_at p (xs @ ys) \<longleftrightarrow>
     starts_at p xs \<and>
     starts_at (p + int (length (concat (map (\<lambda>m. feature_names (data m)) xs)))) ys"
  by (induction xs arbitrary: p) (auto simp: algebra_simps)

lemma fit_types_pos:
  "fit_types S pth N ign names multi vz ts d = Inr d' \<Longrightarrow> pos d' = pos d"
proof (induction ts arbitrary: d)
  case Nil
  then show ?case by simp
next
  case (Cons t ts)
  from Cons.prems obtain d3 where
    "fit_types S pth N ign names multi vz ts d3 = Inr d'" "pos d3 = pos d"
    by (auto simp: Let_def split: sum.splits option.splits if_splits)
  with Cons.IH show ?case by metis
qed

lemma fit_self_spec:
  assumes "fit_self S p N rules ign n = Inr (n1, p1)"
  shows "pos (data n1) = p" "p1 = p + int (length (feature_names (data n1)))"
    "properties n1 = properties n" "items n1 = items n"
proof -
  from assms obtain d where
    d: "fit_types S (join_path_str (path (data n))) N ign (map fst (sorted_properties n))
          (length (sorted_types (type (data n))) > 1)
          (\<lambda>t. if t \<in> type (data n) then get_vectorizer S rules t (join_path_str (path (data n))) else None)
          (sorted_types (type (data n))) ((data n)\<lparr>pos := p\<rparr>) = Inr d"
    and r: "n1 = Node d (properties n) (items n)" "p1 = p + int (length (feature_names d))"
    by (auto simp: fit_self_def Let_def split: sum.splits)
  from fit_types_pos[OF d] r show "pos (data n1) = p" by simp
  from r show "p1 = p + int (length (feature_names (data n1)))" "properties n1 = properties n"
    "items n1 = items n" by simp_all
qed

lemma update_as_map:
  "distinct (map fst ps) \<Longrightarrow>
   k \<in> fst ` set ps \<Longrightarrow>
   AList.update k v ps = map (\<lambda>kc. if fst kc = k then (k, v) else kc) ps"
proof (induction ps)
  case Nil
  then show ?case by simp
next
  case (Cons a ps)
  show ?case
  proof (cases "fst a = k")
    case True
    from Cons.prems(1) have "fst a \<notin> fst ` set ps" by simp
    with True have "\<forall>kc\<in>set ps. fst kc \<noteq> k" by (metis image_eqI)
    then have "map (\<lambda>kc. if fst kc = k then (k, v) else kc) ps = ps"
      by (induction ps) auto
    with True show ?thesis by (cases a) simp
  next
    case False
    with Cons show ?thesis by (cases a) auto
  qed
qed

lemma fold_update_as_map:
  "distinct (map fst ps) \<Longrightarrow> distinct (map fst kcs) \<Longrightarrow> fst ` set kcs \<subseteq> fst ` set ps \<Longrightarrow>
   fold (\<lambda>kc al. AList.update (fst kc) (snd kc) al) kcs ps =
     map (\<lambda>kc. (fst kc, case map_of kcs (fst kc) of None \<Rightarrow> snd kc | Some v \<Rightarrow> v)) ps"
proof (induction kcs arbitrary: ps)
  case Nil
  then show ?case by simp
next
  case (Cons a kcs)
  obtain k0 v0 where a: "a = (k0, v0)" by (cases a)
  let ?ps' = "AList.update k0 v0 ps"
  have k0: "k0 \<in> fst ` set ps" using Cons.prems(3) a by auto
  have ps': "?ps' = map (\<lambda>kc. if fst kc = k0 then (k0, v0) else kc) ps"
    using Cons.prems(1) k0 by (rule update_as_map)
  have d': "distinct (map fst ?ps')" using Cons.prems(1) by (simp add: distinct_update)
  have s': "fst ` set kcs \<subseteq> fst ` set ?ps'"
    using Cons.prems(3) by (auto simp: dom_update)
  have fresh: "map_of kcs k0 = None"
    using Cons.prems(2) a by (simp add: map_of_eq_None_iff)
  have "fold (\<lambda>kc al. AList.update (fst kc) (snd kc) al) (a # kcs) ps =
        fold (\<lambda>kc al. AList.update (fst kc) (snd kc) al) kcs ?ps'"
    by (simp add: a)
  also have "\<dots> = map (\<lambda>kc. (fst kc, case map_of kcs (fst kc) of None \<Rightarrow> snd kc | Some v \<Rightarrow> v)) ?ps'"
    using Cons.IH[OF d' _ s'] Cons.prems(2) by simp
  also have "\<dots> = map (\<lambda>kc. (fst kc, case map_of (a # kcs) (fst kc) of None \<Rightarrow> snd kc | Some v \<Rightarrow> v)) ps"
    unfolding ps' by (auto simp: a fresh)
  finally show ?case .
qed

lemma insort_key_map_keep:
  assumes "\<And>x. fst (h x) = fst x"
  shows "insort_key fst (h x) (map h ys) = map h (insort_key fst x ys)"
  by (induction ys) (auto simp: assms)

lemma sort_key_map_keep:
  assumes "\<And>x. fst (h x) = fst x"
  shows "sort_key fst (map h xs) = map h (sort_key fst xs)"
  by (induction xs) (auto simp: insort_key_map_keep[OF assms])

lemma map_lookup_self:
  assumes "length xs = length ys" "map fst xs = map fst ys" "set ys \<subseteq> set kcs"
    "distinct (map fst kcs)"
  shows "map (\<lambda>kc. (fst kc, case map_of kcs (fst kc) of None \<Rightarrow> snd kc | Some v \<Rightarrow> v)) xs = ys"
  using assms
proof (induction xs ys rule: list_induct2)
  case Nil
  then show ?case by simp
next
  case (Cons x xs y ys)
  let ?g = "\<lambda>kc. (fst kc, case map_of kcs (fst kc) of None \<Rightarrow> snd kc | Some v \<Rightarrow> v)"
  have my: "map_of kcs (fst y) = Some (snd y)"
    by (rule map_of_is_SomeI) (use Cons.prems in auto)
  have xy: "fst x = fst y" using Cons.prems(1) by simp
  have rest: "map ?g xs = ys"
    by (rule Cons.IH) (use Cons.prems in auto)
  show ?case by (simp add: my xy rest)
qed

lemma distinct_fst_sort_key:
  "distinct (map fst (sort_key fst ps)) = distinct (map fst ps)"
  by (simp add: distinct_map)

lemma sorted_properties_write_back:
  assumes "distinct (map fst ps)" "map fst kcs = map fst (sort_key fst ps)"
  shows "sort_key fst (fold (\<lambda>kc al. AList.update (fst kc) (snd kc) al) kcs ps) = kcs"
proof -
  let ?g = "\<lambda>kc. (fst kc, case map_of kcs (fst kc) of None \<Rightarrow> snd kc | Some v \<Rightarrow> v)"
  have dk: "distinct (map fst kcs)" using assms by (simp add: distinct_fst_sort_key)
  have "set (map fst kcs) = set (map fst (sort_key fst ps))" using assms(2) by simp
  then have sub: "fst ` set kcs \<subseteq> fst ` set ps" by simp
  have "fold (\<lambda>kc al. AList.update (fst kc) (snd kc) al) kcs ps = map ?g ps"
    using assms(1) dk sub by (rule fold_update_as_map)
  then have "sort_key fst (fold (\<lambda>kc al. AList.update (fst kc) (snd kc) al) kcs ps) =
             map ?g (sort_key fst ps)"
    by (simp add: sort_key_map_keep)
  also have "\<dots> = kcs"
  proof (rule map_lookup_self)
    show "length (sort_key fst ps) = length kcs"
      using assms(2) by (metis length_map)
    show "map fst (sort_key fst ps) = map fst kcs" using assms(2) by simp
    show "set kcs \<subseteq> set kcs" by simp
    show "distinct (map fst kcs)" by (rule dk)
  qed
  finally show ?thesis .
qed


lemma names_flat:
  "concat (map (\<lambda>m. feature_names (data m)) (concat (map all_nodes cs))) =
   concat (map feature_names_prop cs)"
  by (simp add: concat_map_over_concat comp_def feature_names_prop_flat[symmetric])

lemma fit_layout_all:
  "distinct_keys n \<longrightarrow>
     (\<forall>n' p'. fit_node S p N rules ign n = Inr (n', p') \<longrightarrow>
        starts_at p (all_nodes n') \<and> p' = p + int (length (feature_names_prop n')) \<and>
        (\<forall>m\<in>set (all_nodes n'). n_features (data m) = int (length (feature_names_prop m))))"
  "(\<forall>kc\<in>set kcs. distinct_keys (snd kc)) \<longrightarrow>
     (\<forall>kcs' p'. fit_props S p N rules ign kcs = Inr (kcs', p') \<longrightarrow>
        map fst kcs' = map fst kcs \<and>
        starts_at p (concat (map all_nodes (map snd kcs'))) \<and>
        p' = p + int (length (concat (map feature_names_prop (map snd kcs')))) \<and>
        (\<forall>c\<in>set (map snd kcs'). \<forall>m\<in>set (all_nodes c).
            n_features (data m) = int (length (feature_names_prop m))))"
  "(\<forall>c\<in>set cs. distinct_keys c) \<longrightarrow>
     (\<forall>cs' p'. fit_items S p N rules ign cs = Inr (cs', p') \<longrightarrow>
        starts_at p (concat (map all_nodes cs')) \<and>
        p' = p + int (length (concat (map feature_names_prop cs'))) \<and>
        (\<forall>c\<in>set cs'. \<forall>m\<in>set (all_nodes c).
            n_features (data m) = int (length (feature_names_prop m))))"
proof (induction S p N rules ign n and S p N rules ign kcs and S p N rules ign cs
    rule: fit_node_fit_props_fit_items.induct)
  case (1 search p n_total rules ign n)
  show ?case
  proof (intro impI allI)
    fix n' p'
    assume wf: "distinct_keys n"
      and ex: "fit_node search p n_total rules ign n = Inr (n', p')"
    obtain n1 p1 where fs: "fit_self search p n_total rules ign n = Inr (n1, p1)"
      using ex by (cases "fit_self search p n_total rules ign n") auto
    obtain kcs' p2 where fp:
      "fit_props search p1 n_total rules ign (sorted_properties n1) = Inr (kcs', p2)"
      using ex fs
      by (cases "fit_props search p1 n_total rules ign (sorted_properties n1)") auto
    obtain cs' p3 where fi: "fit_items search p2 n_total rules ign (items n1) = Inr (cs', p3)"
      using ex fs fp by (cases "fit_items search p2 n_total rules ign (items n1)") auto
    define ps2 where
      "ps2 = fold (\<lambda>kc ps. AList.update (fst kc) (snd kc) ps) kcs' (properties n1)"
    define n2 where "n2 = Node (data n1) ps2 cs'"
    have n': "n' = Node ((data n1)\<lparr>n_features := int (length (feature_names_prop n2))\<rparr>) ps2 cs'"
      and p': "p' = p3"
      using ex fs fp fi by (simp_all add: Let_def n2_def ps2_def)
    note sp = fit_self_spec[OF fs]
    have dps: "distinct (map fst (properties n1))"
      and wfp: "\<forall>kc\<in>set (sorted_properties n1). distinct_keys (snd kc)"
      and wfi: "\<forall>c\<in>set (items n1). distinct_keys c"
      using wf sp(3,4) by (auto simp: distinct_keys_iff[of n] sorted_properties_def)
    from "1.IH"(1)[OF fs refl] wfp fp have
      q: "map fst kcs' = map fst (sorted_properties n1)"
         "starts_at p1 (concat (map all_nodes (map snd kcs')))"
         "p2 = p1 + int (length (concat (map feature_names_prop (map snd kcs'))))"
         "\<forall>c\<in>set (map snd kcs'). \<forall>m\<in>set (all_nodes c).
            n_features (data m) = int (length (feature_names_prop m))"
      by blast+
    from "1.IH"(2)[OF fs refl fp refl] wfi fi have
      r: "starts_at p2 (concat (map all_nodes cs'))"
         "p3 = p2 + int (length (concat (map feature_names_prop cs')))"
         "\<forall>c\<in>set cs'. \<forall>m\<in>set (all_nodes c).
            n_features (data m) = int (length (feature_names_prop m))"
      by blast+
    have sorted': "sort_key fst ps2 = kcs'"
      unfolding ps2_def
      by (rule sorted_properties_write_back[OF dps]) (use q(1) in \<open>simp add: sorted_properties_def\<close>)
    have ch': "child_nodes n' = map snd kcs' @ cs'" and ch2: "child_nodes n2 = map snd kcs' @ cs'"
      by (simp_all add: child_nodes_def sorted_properties_def n' n2_def sorted')
    have fnp2: "feature_names_prop n2 =
        feature_names (data n1) @ concat (map feature_names_prop (map snd kcs' @ cs'))"
      by (subst feature_names_prop_children) (simp add: ch2, simp add: n2_def)
    have fnp': "feature_names_prop n' =
        feature_names (data n1) @ concat (map feature_names_prop (map snd kcs' @ cs'))"
      by (subst feature_names_prop_children) (simp add: ch', simp add: n')
    have an: "all_nodes n' =
        n' # concat (map all_nodes (map snd kcs')) @ concat (map all_nodes cs')"
      by (subst all_nodes.simps) (simp add: ch')
    have posn: "pos (data n') = p" "feature_names (data n') = feature_names (data n1)"
      using sp(1) by (simp_all add: n')
    have nf: "concat (map (\<lambda>m. feature_names (data m)) (concat (map all_nodes (map snd kcs')))) =
        concat (map feature_names_prop (map snd kcs'))"
      by (rule names_flat)
    have a: "starts_at p (all_nodes n')"
      unfolding an using posn q(2,3) r(1) sp(2) nf
      by (simp add: starts_at_append)
    have b: "p' = p + int (length (feature_names_prop n'))"
      using p' r(2) q(3) sp(2) by (simp add: fnp')
    have c: "\<forall>m\<in>set (all_nodes n'). n_features (data m) = int (length (feature_names_prop m))"
    proof
      fix m assume "m \<in> set (all_nodes n')"
      then consider "m = n'" | c where "c \<in> set (map snd kcs')" "m \<in> set (all_nodes c)"
        | c where "c \<in> set cs'" "m \<in> set (all_nodes c)"
        unfolding an by auto
      then show "n_features (data m) = int (length (feature_names_prop m))"
      proof cases
        case 1
        have e1: "n_features (data n') = int (length (feature_names_prop n2))"
          by (simp add: n')
        have e2: "feature_names_prop n2 = feature_names_prop n'"
          by (simp only: fnp2 fnp')
        show ?thesis unfolding 1 e1 e2 by (rule refl)
      next
        case 2
        with q(4) show ?thesis by blast
      next
        case 3
        with r(3) show ?thesis by blast
      qed
    qed
    from a b c show "starts_at p (all_nodes n') \<and> p' = p + int (length (feature_names_prop n')) \<and>
        (\<forall>m\<in>set (all_nodes n'). n_features (data m) = int (length (feature_names_prop m)))"
      by blast
  qed
next
  case (2 search p n_total rules ign)
  show ?case by simp
next
  case (3 search p n_total rules ign name c kcs)
  show ?case
  proof (intro impI allI)
    fix kcs' p'
    assume wf: "\<forall>kc\<in>set ((name, c) # kcs). distinct_keys (snd kc)"
      and ex: "fit_props search p n_total rules ign ((name, c) # kcs) = Inr (kcs', p')"
    obtain c' p1 where fc: "fit_node search p n_total rules ign c = Inr (c', p1)"
      using ex by (cases "fit_node search p n_total rules ign c") (auto simp del: fit_node.simps)
    obtain rest p2 where fr: "fit_props search p1 n_total rules ign kcs = Inr (rest, p2)"
      using ex fc by (cases "fit_props search p1 n_total rules ign kcs") (auto simp del: fit_node.simps)
    have res: "kcs' = (name, c') # rest" "p' = p2"
      using ex fc fr by (simp_all del: fit_node.simps)
    from "3.IH"(1) wf fc have
      pc: "starts_at p (all_nodes c')" "p1 = p + int (length (feature_names_prop c'))"
          "\<forall>m\<in>set (all_nodes c'). n_features (data m) = int (length (feature_names_prop m))"
      by auto
    from "3.IH"(2)[OF fc refl] wf fr have
      q: "map fst rest = map fst kcs"
         "starts_at p1 (concat (map all_nodes (map snd rest)))"
         "p2 = p1 + int (length (concat (map feature_names_prop (map snd rest))))"
         "\<forall>c\<in>set (map snd rest). \<forall>m\<in>set (all_nodes c).
            n_features (data m) = int (length (feature_names_prop m))"
      by auto
    show "map fst kcs' = map fst ((name, c) # kcs) \<and>
        starts_at p (concat (map all_nodes (map snd kcs'))) \<and>
        p' = p + int (length (concat (map feature_names_prop (map snd kcs')))) \<and>
        (\<forall>c\<in>set (map snd kcs'). \<forall>m\<in>set (all_nodes c).
            n_features (data m) = int (length (feature_names_prop m)))"
      using pc q res
      by (simp add: starts_at_append feature_names_prop_flat[symmetric])
  qed
next
  case (4 search p n_total rules ign)
  show ?case by simp
next
  case (5 search p n_total rules ign c cs)
  show ?case
  proof (intro impI allI)
    fix cs' p'
    assume wf: "\<forall>c\<in>set (c # cs). distinct_keys c"
      and ex: "fit_items search p n_total rules ign (c # cs) = Inr (cs', p')"
    obtain c' p1 where fc: "fit_node search p n_total rules ign c = Inr (c', p1)"
      using ex by (cases "fit_node search p n_total rules ign c") (auto simp del: fit_node.simps)
    obtain rest p2 where fr: "fit_items search p1 n_total rules ign cs = Inr (rest, p2)"
      using ex fc by (cases "fit_items search p1 n_total rules ign cs") (auto simp del: fit_node.simps)
    have res: "cs' = c' # rest" "p' = p2"
      using ex fc fr by (simp_all del: fit_node.simps)
    from "5.IH"(1) wf fc have
      pc: "starts_at p (all_nodes c')" "p1 = p + int (length (feature_names_prop c'))"
          "\<forall>m\<in>set (all_nodes c'). n_features (data m) = int (length (feature_names_prop m))"
      by auto
    from "5.IH"(2)[OF fc refl] wf fr have
      q: "starts_at p1 (concat (map all_nodes rest))"
         "p2 = p1 + int (length (concat (map feature_names_prop rest)))"
         "\<forall>c\<in>set rest. \<forall>m\<in>set (all_nodes c).
            n_features (data m) = int (length (feature_names_prop m))"
      by auto
    show "starts_at p (concat (map all_nodes cs')) \<and>
        p' = p + int (length (concat (map feature_names_prop cs'))) \<and>
        (\<forall>c\<in>set cs'. \<forall>m\<in>set (all_nodes c).
            n_features (data m) = int (length (feature_names_prop m)))"
      using pc q res
      by (simp add: starts_at_append feature_names_prop_flat[symmetric])
  qed
qed

lemma child_in_all_nodes: "c \<in> set (child_nodes m) \<Longrightarrow> c \<in> set (all_nodes m)"
proof -
  assume "c \<in> set (child_nodes m)"
  moreover have "c \<in> set (all_nodes c)" by (subst all_nodes.simps) simp
  ultimately show ?thesis by (subst all_nodes.simps) auto
qed

lemma all_nodes_closed: "m \<in> set (all_nodes n) \<Longrightarrow> set (all_nodes m) \<subseteq> set (all_nodes n)"
proof (induction n rule: all_nodes.induct)
  case (1 n)
  from "1.prems" consider "m = n" | c where "c \<in> set (child_nodes n)" "m \<in> set (all_nodes c)"
    by (subst (asm) all_nodes.simps) auto
  then show ?case
  proof cases
    case 1
    then show ?thesis by simp
  next
    case 2
    from "1.IH"[OF 2] have "set (all_nodes m) \<subseteq> set (all_nodes c)" .
    moreover have "set (all_nodes c) \<subseteq> set (all_nodes n)"
      using 2(1) by (subst (2) all_nodes.simps) auto
    ultimately show ?thesis by blast
  qed
qed

lemma length_concat_sum:
  "int (length (concat (map f cs))) = sum_list (map (\<lambda>c. int (length (f c))) cs)"
  by (induction cs) auto

text \<open>
  Claim C2. After \<^verbatim>\<open>fit\<close> on a root that \<^verbatim>\<open>extend\<close> built: the nodes taken in
  pre-order (a node, then its properties in lexicographic order, then its items in index
  order) hold consecutive blocks starting at 0, so that each stored position is the number
  of feature names of the nodes before it, and the flat list \<^verbatim>\<open>feature_names_\<close> of the
  root is the concatenation of the local lists in that order; every node's
  \<^verbatim>\<open>n_features\<close> is the length of its local list plus the sum of its children's
  \<^verbatim>\<open>n_features\<close>; and every fit step that returns stores the position it was given
  and returns it plus the number of local feature names.
\<close>

theorem fit_positions:
  assumes "extend V ts (new_node p0 ti) docs0 = Inr n0"
    and "fit V ts search docs rules ign n0 = Inr n"
  shows "starts_at 0 (all_nodes n) \<and>
         feature_names_prop n = concat (map (\<lambda>m. feature_names (data m)) (all_nodes n)) \<and>
         (\<forall>m\<in>set (all_nodes n).
            n_features (data m) =
              int (length (feature_names (data m))) +
              sum_list (map (\<lambda>c. n_features (data c)) (child_nodes m))) \<and>
         (\<forall>p N m m' q.
            fit_self search p N rules ign m = Inr (m', q) \<longrightarrow>
              pos (data m') = p \<and> q = p + int (length (feature_names (data m'))))"
proof -
  from assms(2) obtain n1 q where
    e1: "extend V ts n0 docs = Inr n1"
    and f: "fit_node search 0 (sum_counts n1) rules ign n1 = Inr (n, q)"
    by (auto simp: fit_def simp del: fit_node.simps split: sum.splits)
  have "distinct_keys n0" using distinct_keys_extend[OF _ assms(1)] by simp
  then have wf: "distinct_keys n1" using e1 by (rule distinct_keys_extend)
  from fit_layout_all(1)[of n1 search 0 "sum_counts n1" rules ign] wf f have
    a: "starts_at 0 (all_nodes n)"
    and c: "\<forall>m\<in>set (all_nodes n). n_features (data m) = int (length (feature_names_prop m))"
    by blast+
  have d: "\<forall>m\<in>set (all_nodes n).
            n_features (data m) =
              int (length (feature_names (data m))) +
              sum_list (map (\<lambda>c. n_features (data c)) (child_nodes m))"
  proof
    fix m assume m: "m \<in> set (all_nodes n)"
    have ch: "\<forall>c\<in>set (child_nodes m). n_features (data c) = int (length (feature_names_prop c))"
      using c m all_nodes_closed[OF m] child_in_all_nodes by blast
    have "n_features (data m) = int (length (feature_names_prop m))" using c m by blast
    also have "\<dots> = int (length (feature_names (data m))) +
        int (length (concat (map feature_names_prop (child_nodes m))))"
      by (subst feature_names_prop_children) simp
    also have "int (length (concat (map feature_names_prop (child_nodes m)))) =
        sum_list (map (\<lambda>c. int (length (feature_names_prop c))) (child_nodes m))"
      by (rule length_concat_sum)
    also have "map (\<lambda>c. int (length (feature_names_prop c))) (child_nodes m) =
        map (\<lambda>c. n_features (data c)) (child_nodes m)"
      using ch by simp
    finally show "n_features (data m) =
        int (length (feature_names (data m))) +
        sum_list (map (\<lambda>c. n_features (data c)) (child_nodes m))" .
  qed
  have s: "\<forall>p N m m' q.
            fit_self search p N rules ign m = Inr (m', q) \<longrightarrow>
              pos (data m') = p \<and> q = p + int (length (feature_names (data m')))"
    using fit_self_spec(1,2) by blast
  from a feature_names_prop_flat[of n] d s show ?thesis by blast
qed

theorem fit_positions_witness:
  "extend 3 no_timestamps (new_node [SStr ''root''] False)
     [DDict [(''a'', DInt 1), (''b'', DStr ''x'')], DDict [(''a'', DNone)]] = Inr learned_ab \<and>
   (case fit 3 no_timestamps never_matches [] [] [] learned_ab of
      Inl e \<Rightarrow> False
    | Inr n \<Rightarrow>
        starts_at 0 (all_nodes n) \<and>
        map (\<lambda>m. pos (data m)) (all_nodes n) = [0, 1, 3] \<and>
        map (\<lambda>m. n_features (data m)) (all_nodes n) = [3, 2, 0] \<and>
        feature_names_prop n =
          [''root has property '' @ [CHR 0x22] @ ''b'' @ [CHR 0x22],
           ''root:a is null'', ''root:a is number''])"
proof -
  have e1: "extend 3 no_timestamps (new_node [SStr ''root''] False)
     [DDict [(''a'', DInt 1), (''b'', DStr ''x'')], DDict [(''a'', DNone)]] = Inr learned_ab"
    by (simp add: extend_self_def Schema_extend_self_def new_node_def Let_def add_property_def
        no_timestamps_def learned_ab_def)
  have ev: "(case fit 3 no_timestamps never_matches [] [] [] learned_ab of
      Inl e \<Rightarrow> False
    | Inr n \<Rightarrow>
        map (\<lambda>m. pos (data m)) (all_nodes n) = [0, 1, 3] \<and>
        map (\<lambda>m. n_features (data m)) (all_nodes n) = [3, 2, 0] \<and>
        feature_names_prop n =
          [''root has property '' @ [CHR 0x22] @ ''b'' @ [CHR 0x22],
           ''root:a is null'', ''root:a is number''])"
    by (simp add: fit_def learned_ab_def fit_self_def Let_def sum_counts_def map_items_def
        all_types_def sorted_types_def sorted_properties_def join_path_str_def optional_names_def
        feature_names_prop.simps all_nodes.simps child_nodes_def)
  then obtain n where e2: "fit 3 no_timestamps never_matches [] [] [] learned_ab = Inr n"
    and facts: "map (\<lambda>m. pos (data m)) (all_nodes n) = [0, 1, 3]"
       "map (\<lambda>m. n_features (data m)) (all_nodes n) = [3, 2, 0]"
       "feature_names_prop n =
          [''root has property '' @ [CHR 0x22] @ ''b'' @ [CHR 0x22],
           ''root:a is null'', ''root:a is number'']"
    by (cases "fit 3 no_timestamps never_matches [] [] [] learned_ab") auto
  from fit_positions[OF e1 e2] have "starts_at 0 (all_nodes n)" by blast
  with e1 e2 facts show ?thesis by simp
qed

section \<open>Properties of transforming\<close>

text \<open>
  A run of the whole pipeline in shared mode: fitted on \<^verbatim>\<open>{"a": 1, "b": "x"}\<close> and
  \<^verbatim>\<open>{"a": null}\<close> (features: has property b, \<^verbatim>\<open>root:a is null\<close>,
  \<^verbatim>\<open>root:a is number\<close>), the two objects get their columns and the number \<open>3\<close>,
  whose type the root has not learned, gets an empty row.
\<close>

lemma transform_skips_untyped_document:
  "fit_then_transform 3 no_timestamps never_matches leak (new_node [SStr ''root''] False)
     [DDict [(''a'', DInt 1), (''b'', DStr ''x'')], DDict [(''a'', DNone)]] [] []
     [DDict [(''a'', DInt 1), (''b'', DStr ''x'')], DDict [(''a'', DNone)], DInt 3] =
     Inr ([[0, 2], [1], []], [[True, True], [True], []])"
  by (simp add: fit_then_transform_def fit_def transform_def extend_self_def Schema_extend_self_def
      new_node_def Let_def add_item_def add_property_def grow_items.simps fit_self_def sum_counts_def map_items_def
      all_types_def sorted_types_def sorted_properties_def join_path_str_def str_nat.simps
      feature_names_prop.simps transform_node.simps transform_self_def index_by_item_def
      index_by_property_def group_add_def property_call_def
      item_call_def take_rows_def upt_rec no_timestamps_def lil_insert_def lil_insert_row_def
      bisect_left_def bisect_loop.simps list_insert_def optional_names_def)

text \<open>
  In shared mode every position of an array goes to \<^verbatim>\<open>items[0]\<close>: \<^verbatim>\<open>[1, "a"]\<close> sets
  the columns of \<^verbatim>\<open>is number\<close> and \<^verbatim>\<open>is string\<close>.
\<close>

lemma transform_shared_items:
  "fit_then_transform 3 no_timestamps never_matches leak (new_node [SStr ''root''] False)
     [DList [DInt 1, DStr ''a''], DList [DNone, DInt 2]] [] [] [DList [DInt 1, DStr ''a'']] =
     Inr ([[1, 2]], [[True, True]])"
  by (simp add: fit_then_transform_def fit_def transform_def extend_self_def Schema_extend_self_def
      new_node_def Let_def add_item_def add_property_def grow_items.simps fit_self_def sum_counts_def map_items_def
      all_types_def sorted_types_def sorted_properties_def join_path_str_def str_nat.simps
      feature_names_prop.simps transform_node.simps transform_self_def index_by_item_def
      index_by_property_def group_add_def property_call_def
      item_call_def take_rows_def upt_rec no_timestamps_def lil_insert_def lil_insert_row_def
      bisect_left_def bisect_loop.simps list_insert_def optional_names_def)

text \<open>
  Claim C1 at a failing input. A tuple-mode vectorizer is fitted on
  \<^verbatim>\<open>[[1, "a"], [None, 2]]\<close> (features: \<^verbatim>\<open>root:0 is null\<close>, \<^verbatim>\<open>root:0 is number\<close>,
  \<^verbatim>\<open>root:1 is number\<close>, \<^verbatim>\<open>root:1 is string\<close>) and transforms the batch
  \<^verbatim>\<open>[[1, "a"]]\<close>. The items loop reads the child 0 for both positions: the sub-batch
  \<^verbatim>\<open>["a"]\<close> of position 1 goes to \<^verbatim>\<open>items[0]\<close>, \<^verbatim>\<open>items[1]\<close> receives nothing, and
  row 0 holds column 1 only, without the column 3 of \<^verbatim>\<open>root:1 is string\<close>. Both scopings
  of the comprehension variable give the same result.
\<close>

theorem transform_items_read_by_document_index:
  "fit_then_items_loop_calls 3 no_timestamps never_matches leak (new_node [SStr ''root''] True)
     [DList [DInt 1, DStr ''a''], DList [DNone, DInt 2]] [] [] [DList [DInt 1, DStr ''a'']] =
     Inr [(0, [DInt 1], [0]), (0, [DStr ''a''], [0])] \<and>
   fit_then_transform 3 no_timestamps never_matches leak (new_node [SStr ''root''] True)
     [DList [DInt 1, DStr ''a''], DList [DNone, DInt 2]] [] [] [DList [DInt 1, DStr ''a'']] =
     Inr ([[1]], [[True]])"
  by (simp add: fit_then_items_loop_calls_def items_loop_calls_def fit_then_transform_def fit_def
      transform_def extend_self_def Schema_extend_self_def new_node_def Let_def add_item_def
      grow_items.simps fit_self_def sum_counts_def map_items_def all_types_def sorted_types_def
      sorted_properties_def join_path_str_def str_nat.simps feature_names_prop.simps
      transform_node.simps transform_self_def index_by_item_def index_by_property_def
      item_call_def take_rows_def upt_rec no_timestamps_def lil_insert_def lil_insert_row_def
      bisect_left_def bisect_loop.simps list_insert_def)

text \<open>
  Claim C6 at a failing input. A tuple-mode vectorizer fitted on \<^verbatim>\<open>[[1], [1]]\<close> has one
  item schema; transforming the same two documents reads the child at the document index
  1 and raises \<^verbatim>\<open>IndexError\<close>, under both scopings of the comprehension variable.
\<close>

theorem transform_raises_on_conforming_batch:
  "fit_then_transform 3 no_timestamps never_matches leak (new_node [SStr ''root''] True)
     [DList [DInt 1], DList [DInt 1]] [] [] [DList [DInt 1], DList [DInt 1]] = Inl IndexError"
  by (simp add: fit_then_transform_def fit_def transform_def extend_self_def Schema_extend_self_def
      new_node_def Let_def add_item_def grow_items.simps fit_self_def sum_counts_def map_items_def
      all_types_def sorted_types_def sorted_properties_def join_path_str_def
      feature_names_prop.simps transform_node.simps transform_self_def index_by_item_def
      index_by_property_def item_call_def take_rows_def upt_rec)

end
